theory Spec2Isabelle
  imports Main "HOL-Library.Sublist" "HOL-Library.AList"
begin

section \<open>Data model of \<open>core/entities/entities.py\<close>\<close>

text \<open>
  Python values as they occur in the records exchanged with a repository: \<open>None\<close>,
  integers, strings, lists and dictionaries (insertion-ordered, keyed by strings).
  Floating-point numbers and objects of other classes are left out.
\<close>

datatype pyval =
    PNone
  | PInt int
  | PStr string
  | PList "pyval list"
  | PDict "(string \<times> pyval) list"

type_synonym pydict = "(string \<times> pyval) list"

text \<open>
  Exceptions. The first four are the built-in classes that the code of this repository
  and its look-ups raise, with the text that \<open>str(e)\<close> yields. \<open>OtherException\<close> is an
  instance of any other class derived from \<open>Exception\<close>, as a repository may raise it;
  since such a class can define \<open>__str__\<close>, it carries what \<open>str(e)\<close> does: return a text
  (\<open>Inr\<close>) or raise an exception in turn (\<open>Inl\<close>). \<open>BaseExceptionOnly\<close> is an instance of a
  class derived from \<open>BaseException\<close> but not from \<open>Exception\<close>, such as
  \<open>KeyboardInterrupt\<close> and \<open>SystemExit\<close>.
\<close>

datatype exn =
    ValueError string
  | KeyError string
  | TypeError string
  | AttributeError string
  | OtherException "exn + string"
  | BaseExceptionOnly "exn + string"

fun exn_str :: "exn \<Rightarrow> exn + string" where
  "exn_str (ValueError m) = Inr m"
| "exn_str (KeyError m) = Inr m"
| "exn_str (TypeError m) = Inr m"
| "exn_str (AttributeError m) = Inr m"
| "exn_str (OtherException r) = r"
| "exn_str (BaseExceptionOnly r) = r"

text \<open>\<open>isinstance(e, ValueError)\<close> and \<open>isinstance(e, Exception)\<close>.\<close>

fun is_ValueError :: "exn \<Rightarrow> bool" where
  "is_ValueError (ValueError m) = True"
| "is_ValueError e = False"

fun is_Exception :: "exn \<Rightarrow> bool" where
  "is_Exception (BaseExceptionOnly r) = False"
| "is_Exception e = True"

text \<open>An exception that is an instance of \<open>Exception\<close> and whose \<open>str(e)\<close> returns.\<close>

definition catchable :: "exn \<Rightarrow> bool" where
  "catchable e \<longleftrightarrow> is_Exception e \<and> (case exn_str e of Inl e1 \<Rightarrow> False | Inr m \<Rightarrow> True)"

datatype Status = TODO | IN_PROGRESS | DONE

datatype Tag = HIGH_PRIORITY | MEDIUM_PRIORITY | LOW_PRIORITY

fun Status_name :: "Status \<Rightarrow> string" where
  "Status_name TODO = ''TODO''"
| "Status_name IN_PROGRESS = ''IN_PROGRESS''"
| "Status_name DONE = ''DONE''"

fun Tag_name :: "Tag \<Rightarrow> string" where
  "Tag_name HIGH_PRIORITY = ''HIGH_PRIORITY''"
| "Tag_name MEDIUM_PRIORITY = ''MEDIUM_PRIORITY''"
| "Tag_name LOW_PRIORITY = ''LOW_PRIORITY''"

record Agent =
  agent_id :: string
  agent_name :: pyval

record Project =
  project_id :: string
  project_name :: string

text \<open>
  Tasks are Python objects compared by identity, and a task's \<open>dependencies\<close> is a set
  of references to other tasks. A task is therefore an address into a store. The set of
  dependencies is kept as a list without repetition: the order of the list is the order
  in which Python iterates over the set, which the language leaves open. The general
  statements below are made for an arbitrary store and hence for every order, and the
  outcome of the validation is shown not to depend on the order
  (\<open>validate_dependencies_order\<close>).
\<close>

type_synonym addr = nat

record Task =
  task_id :: "string option"
  title :: pyval
  description :: pyval
  cost :: int
  status :: Status
  tags :: "Tag list"
  dependencies :: "addr list"
  project :: "Project option"
  assignee :: "Agent option"

type_synonym heap = "addr \<Rightarrow> Task"

text \<open>
  \<open>set.add\<close> and \<open>set.remove\<close> on the list that stands for a set. \<open>set.remove\<close> raises
  \<open>KeyError\<close> on an element that is not in the set; its only call, in \<open>add_dependency\<close>,
  removes the element that was added three lines before, so that it returns.
\<close>

definition set_add :: "addr list \<Rightarrow> addr \<Rightarrow> addr list" where
  "set_add ds x = (if x \<in> set ds then ds else ds @ [x])"

definition set_remove :: "addr list \<Rightarrow> addr \<Rightarrow> addr list" where
  "set_remove ds x = removeAll x ds"

section \<open>Dependency validation\<close>

text \<open>
  The loop of \<open>validate_dependencies\<close>: \<open>stack.pop()\<close> takes the last element,
  \<open>stack.extend\<close> appends. On a store whose dependency graph is infinite the loop
  need not return; the value \<open>None\<close> stands for that.
\<close>

partial_function (option) validate_loop :: "heap \<Rightarrow> addr set \<Rightarrow> addr list \<Rightarrow> bool option" where
  "validate_loop h seen stack =
     (if stack = [] then Some True
      else if last stack \<in> seen then Some False
      else validate_loop h (insert (last stack) seen)
             (butlast stack @ dependencies (h (last stack))))"

definition validate_dependencies :: "heap \<Rightarrow> addr \<Rightarrow> bool option" where
  "validate_dependencies h task = validate_loop h {} [task]"

text \<open>The same loop with a bound on the number of iterations it may run.\<close>

fun validate_fuel :: "nat \<Rightarrow> heap \<Rightarrow> addr set \<Rightarrow> addr list \<Rightarrow> bool option" where
  "validate_fuel 0 h seen stack = (if stack = [] then Some True else None)"
| "validate_fuel (Suc n) h seen stack =
     (if stack = [] then Some True
      else if last stack \<in> seen then Some False
      else validate_fuel n h (insert (last stack) seen)
             (butlast stack @ dependencies (h (last stack))))"

section \<open>Methods of \<open>Task\<close>\<close>

definition with_dependency :: "heap \<Rightarrow> addr \<Rightarrow> addr \<Rightarrow> heap" where
  "with_dependency h self task =
     h(self := (h self)\<lparr>dependencies := set_add (dependencies (h self)) task\<rparr>)"

definition without_dependency :: "heap \<Rightarrow> addr \<Rightarrow> addr \<Rightarrow> heap" where
  "without_dependency h self task =
     h(self := (h self)\<lparr>dependencies := set_remove (dependencies (h self)) task\<rparr>)"

definition add_dependency :: "heap \<Rightarrow> addr \<Rightarrow> addr \<Rightarrow> heap option" where
  "add_dependency h self task =
     (let h1 = with_dependency h self task in
      case validate_dependencies h1 self of
        None \<Rightarrow> None
      | Some ok \<Rightarrow> Some (if \<not> ok then without_dependency h1 self task else h1))"

definition can_start :: "heap \<Rightarrow> addr \<Rightarrow> bool" where
  "can_start h self \<longleftrightarrow>
     assignee (h self) \<noteq> None \<and>
     (dependencies (h self) = [] \<or>
      list_all (\<lambda>dep. status (h dep) = DONE) (dependencies (h self)))"

definition start_task :: "heap \<Rightarrow> addr \<Rightarrow> bool \<times> heap" where
  "start_task h self =
     (if can_start h self then (True, h(self := (h self)\<lparr>status := IN_PROGRESS\<rparr>))
      else (False, h))"

definition can_complete :: "heap \<Rightarrow> addr \<Rightarrow> bool" where
  "can_complete h self \<longleftrightarrow> status (h self) = IN_PROGRESS"

definition complete_task :: "heap \<Rightarrow> addr \<Rightarrow> bool \<times> heap" where
  "complete_task h self =
     (if can_complete h self then (True, h(self := (h self)\<lparr>status := DONE\<rparr>))
      else (False, h))"

definition set_project :: "heap \<Rightarrow> addr \<Rightarrow> Project \<Rightarrow> heap" where
  "set_project h self p = h(self := (h self)\<lparr>project := Some p\<rparr>)"

text \<open>\<open>assign\<close> on the task object alone, as a use case calls it on a task it has just built.\<close>

definition Task_assign :: "Task \<Rightarrow> Agent \<Rightarrow> Task" where
  "Task_assign t a = t\<lparr>assignee := Some a\<rparr>"

definition assign :: "heap \<Rightarrow> addr \<Rightarrow> Agent \<Rightarrow> heap" where
  "assign h self a = h(self := Task_assign (h self) a)"

text \<open>
  The entity operations as data, so that sequences of calls on the tasks of a store can
  be run: each step names the task that receives the call.
\<close>

datatype entity_op =
    AddDependency addr
  | StartTask
  | CompleteTask
  | SetProject Project
  | Assign Agent

fun apply_op :: "heap \<Rightarrow> addr \<times> entity_op \<Rightarrow> heap option" where
  "apply_op h (self, AddDependency task) = add_dependency h self task"
| "apply_op h (self, StartTask) = Some (snd (start_task h self))"
| "apply_op h (self, CompleteTask) = Some (snd (complete_task h self))"
| "apply_op h (self, SetProject p) = Some (set_project h self p)"
| "apply_op h (self, Assign a) = Some (assign h self a)"

fun run_ops :: "heap \<Rightarrow> (addr \<times> entity_op) list \<Rightarrow> heap option" where
  "run_ops h [] = Some h"
| "run_ops h (c # cs) = (case apply_op h c of None \<Rightarrow> None | Some h1 \<Rightarrow> run_ops h1 cs)"

section \<open>The dependency graph\<close>

definition dep_rel :: "heap \<Rightarrow> (addr \<times> addr) set" where
  "dep_rel h = {(x, y). y \<in> set (dependencies (h x))}"

definition reachable :: "heap \<Rightarrow> addr \<Rightarrow> addr set" where
  "reachable h x = (dep_rel h)\<^sup>* `` {x}"

text \<open>A store of a running program: only finitely many tasks have dependencies.\<close>

definition finite_heap :: "heap \<Rightarrow> bool" where
  "finite_heap h \<longleftrightarrow> finite {a. dependencies (h a) \<noteq> []}"

text \<open>
  The tasks reachable from \<open>r\<close> form a tree with root \<open>r\<close>: among them, no task lists a
  dependency twice, none depends on \<open>r\<close>, and no task is a dependency of two tasks.
\<close>

definition tree_from :: "heap \<Rightarrow> addr \<Rightarrow> bool" where
  "tree_from h r \<longleftrightarrow>
     (\<forall>u\<in>reachable h r. distinct (dependencies (h u)) \<and> r \<notin> set (dependencies (h u))) \<and>
     (\<forall>u\<in>reachable h r. \<forall>u'\<in>reachable h r.
        set (dependencies (h u)) \<inter> set (dependencies (h u')) \<noteq> {} \<longrightarrow> u = u')"

section \<open>Makespan boundaries and status tally\<close>

text \<open>Python's \<open>max\<close> over a non-empty iterable: a left-to-right scan.\<close>

fun py_max :: "int \<Rightarrow> int list \<Rightarrow> int" where
  "py_max m [] = m"
| "py_max m (x # xs) = py_max (if x > m then x else m) xs"

definition get_makespan_boundaries :: "heap \<Rightarrow> addr list \<Rightarrow> int \<times> int" where
  "get_makespan_boundaries h tasks =
     (case tasks of
        [] \<Rightarrow> (0, 0)
      | t # ts \<Rightarrow>
          (let max_makespan = sum_list (map (\<lambda>task. cost (h task)) tasks);
               min_makespan = py_max (cost (h t)) (map (\<lambda>task. cost (h task)) ts)
           in (min_makespan, max_makespan)))"

text \<open>\<open>Counter(iterable)\<close>: each element bumps its own count, starting from an empty dictionary.\<close>

fun Counter :: "('k \<rightharpoonup> nat) \<Rightarrow> 'k list \<Rightarrow> ('k \<rightharpoonup> nat)" where
  "Counter m [] = m"
| "Counter m (x # xs) = Counter (m(x \<mapsto> (case m x of None \<Rightarrow> 0 | Some c \<Rightarrow> c) + 1)) xs"

definition track_statuses :: "heap \<Rightarrow> addr list \<Rightarrow> (Status \<rightharpoonup> nat)" where
  "track_statuses h tasks = Counter Map.empty (map (\<lambda>task. status (h task)) tasks)"

section \<open>Python primitives used by the use cases\<close>

definition bind_exn :: "exn + 'a \<Rightarrow> ('a \<Rightarrow> exn + 'b) \<Rightarrow> exn + 'b" where
  "bind_exn m f = (case m of Inl e \<Rightarrow> Inl e | Inr x \<Rightarrow> f x)"

text \<open>A list comprehension whose element expression may raise: the first exception ends it.\<close>

fun map_exn :: "('a \<Rightarrow> exn + 'b) \<Rightarrow> 'a list \<Rightarrow> exn + 'b list" where
  "map_exn f [] = Inr []"
| "map_exn f (x # xs) =
     (case f x of
        Inl e \<Rightarrow> Inl e
      | Inr y \<Rightarrow> (case map_exn f xs of Inl e \<Rightarrow> Inl e | Inr ys \<Rightarrow> Inr (y # ys)))"

definition squote :: string where
  "squote = [CHR 0x27]"

fun show_nat :: "nat \<Rightarrow> string" where
  "show_nat n =
     (if n < 10 then [''0123456789'' ! n]
      else show_nat (n div 10) @ [''0123456789'' ! (n mod 10)])"

definition show_int :: "int \<Rightarrow> string" where
  "show_int i = (if i < 0 then CHR ''-'' # show_nat (nat (- i)) else show_nat (nat i))"

fun py_type_name :: "pyval \<Rightarrow> string" where
  "py_type_name PNone = ''NoneType''"
| "py_type_name (PInt i) = ''int''"
| "py_type_name (PStr s) = ''str''"
| "py_type_name (PList vs) = ''list''"
| "py_type_name (PDict d) = ''dict''"

text \<open>
  \<open>repr\<close> of a string: between double quotes when the string holds a single quote and no
  double quote, between single quotes otherwise; a backslash and the enclosing quote are
  escaped with a backslash, tab, newline and carriage return are written as a backslash
  and the letter \<open>t\<close>, \<open>n\<close> or \<open>r\<close>, and the other control characters of ASCII as a
  backslash, the letter \<open>x\<close> and two hexadecimal digits. Characters beyond ASCII are
  kept, as Python keeps the printable ones.
\<close>

definition repr_quote :: "string \<Rightarrow> char" where
  "repr_quote s = (if CHR 0x27 \<in> set s \<and> CHR 0x22 \<notin> set s then CHR 0x22 else CHR 0x27)"

definition repr_char :: "char \<Rightarrow> char \<Rightarrow> string" where
  "repr_char q c =
     (if c = q \<or> c = CHR 0x5C then [CHR 0x5C, c]
      else if c = CHR 0x09 then [CHR 0x5C, CHR ''t'']
      else if c = CHR 0x0A then [CHR 0x5C, CHR ''n'']
      else if c = CHR 0x0D then [CHR 0x5C, CHR ''r'']
      else if (of_char c :: nat) < 32 \<or> (of_char c :: nat) = 127
        then [CHR 0x5C, CHR ''x'', ''0123456789abcdef'' ! (of_char c div 16),
              ''0123456789abcdef'' ! (of_char c mod 16)]
      else [c])"

definition repr_str :: "string \<Rightarrow> string" where
  "repr_str s = repr_quote s # concat (map (repr_char (repr_quote s)) s) @ [repr_quote s]"

text \<open>
  \<open>repr\<close> of a dictionary key, which is the text of a \<open>KeyError\<close>. Lists and dictionaries
  are no keys (they are unhashable), so that their \<open>repr\<close> is never taken.
\<close>

fun py_repr :: "pyval \<Rightarrow> string" where
  "py_repr PNone = ''None''"
| "py_repr (PInt i) = show_int i"
| "py_repr (PStr s) = repr_str s"
| "py_repr v = ''<'' @ py_type_name v @ ''>''"

text \<open>\<open>E[key]\<close> on an enumeration class with the given members.\<close>

definition enum_getitem :: "(string \<times> 'a) list \<Rightarrow> pyval \<Rightarrow> exn + 'a" where
  "enum_getitem members key =
     (case key of
        PStr n \<Rightarrow> (case map_of members n of
                     Some v \<Rightarrow> Inr v
                   | None \<Rightarrow> Inl (KeyError (py_repr key)))
      | PList vs \<Rightarrow> Inl (TypeError (''unhashable type: '' @ squote @ ''list'' @ squote))
      | PDict d \<Rightarrow> Inl (TypeError (''unhashable type: '' @ squote @ ''dict'' @ squote))
      | _ \<Rightarrow> Inl (KeyError (py_repr key)))"

definition Tag_getitem :: "pyval \<Rightarrow> exn + Tag" where
  "Tag_getitem = enum_getitem
     [(''HIGH_PRIORITY'', HIGH_PRIORITY), (''MEDIUM_PRIORITY'', MEDIUM_PRIORITY),
      (''LOW_PRIORITY'', LOW_PRIORITY)]"

definition Status_getitem :: "pyval \<Rightarrow> exn + Status" where
  "Status_getitem = enum_getitem
     [(''TODO'', TODO), (''IN_PROGRESS'', IN_PROGRESS), (''DONE'', DONE)]"

text \<open>\<open>obj[key]\<close> and \<open>obj.get(key, default)\<close> with a string key, iteration over a value.\<close>

definition py_getitem :: "pyval \<Rightarrow> string \<Rightarrow> exn + pyval" where
  "py_getitem obj key =
     (case obj of
        PDict d \<Rightarrow> (case map_of d key of
                      Some v \<Rightarrow> Inr v
                    | None \<Rightarrow> Inl (KeyError (py_repr (PStr key))))
      | PList vs \<Rightarrow> Inl (TypeError ''list indices must be integers or slices, not str'')
      | PStr s \<Rightarrow> Inl (TypeError (''string indices must be integers, not '' @ squote @ ''str'' @ squote))
      | _ \<Rightarrow> Inl (TypeError (squote @ py_type_name obj @ squote @ '' object is not subscriptable'')))"

definition py_get :: "pyval \<Rightarrow> string \<Rightarrow> pyval \<Rightarrow> exn + pyval" where
  "py_get obj key dflt =
     (case obj of
        PDict d \<Rightarrow> Inr (case map_of d key of Some v \<Rightarrow> v | None \<Rightarrow> dflt)
      | _ \<Rightarrow> Inl (AttributeError (squote @ py_type_name obj @ squote @ '' object has no attribute ''
                    @ squote @ ''get'' @ squote)))"

definition py_iter :: "pyval \<Rightarrow> exn + pyval list" where
  "py_iter obj =
     (case obj of
        PList vs \<Rightarrow> Inr vs
      | PStr s \<Rightarrow> Inr (map (\<lambda>c. PStr [c]) s)
      | PDict d \<Rightarrow> Inr (map (\<lambda>kv. PStr (fst kv)) d)
      | _ \<Rightarrow> Inl (TypeError (squote @ py_type_name obj @ squote @ '' object is not iterable'')))"

section \<open>Construction of entities\<close>

text \<open>
  \<open>Task.__init__\<close>: the fields are stored, then the cost is checked. Comparing a cost
  that is not a number with \<open>1\<close> raises \<open>TypeError\<close>.
\<close>

definition Task_init ::
  "string option \<Rightarrow> pyval \<Rightarrow> pyval \<Rightarrow> pyval \<Rightarrow> Status \<Rightarrow> Tag list \<Rightarrow> exn + Task" where
  "Task_init tid ttl descr cst st tgs =
     (case cst of
        PInt c \<Rightarrow>
          if c < 1 then Inl (ValueError ''Cost must be at least 1'')
          else Inr \<lparr>task_id = tid, title = ttl, description = descr, cost = c, status = st,
                    tags = tgs, dependencies = [], project = None, assignee = None\<rparr>
      | _ \<Rightarrow> Inl (TypeError (squote @ ''<'' @ squote @ '' not supported between instances of ''
                    @ squote @ py_type_name cst @ squote @ '' and '' @ squote @ ''int'' @ squote)))"

definition Agent_init :: "string \<Rightarrow> pyval \<Rightarrow> Agent" where
  "Agent_init aid nm = \<lparr>agent_id = aid, agent_name = nm\<rparr>"

section \<open>Use cases of \<open>use_cases/use_cases.py\<close>\<close>

datatype Result = Success pyval | Failure string

text \<open>
  A repository is an object with a state of its own. A call returns normally or raises,
  and leaves the repository in a new state; \<open>add\<close> may change the record it is given,
  so it returns the record as it is after the call.
\<close>

record 's Repository =
  repo_add :: "'s \<Rightarrow> pydict \<Rightarrow> (exn + pydict) \<times> 's"
  repo_get :: "'s \<Rightarrow> string \<Rightarrow> (exn + pyval) \<times> 's"
  repo_list :: "'s \<Rightarrow> (exn + pyval list) \<times> 's"

text \<open>
  Every use case returns the pair of its outcome and the repository state. The outcome is
  a sum: \<open>Inl\<close> is an exception that leaves the function, \<open>Inr\<close> a returned value.

  The body of a handler, \<open>return dtos.Failure(error=f"...{e}")\<close>: the text of the
  exception is taken with \<open>str(e)\<close>, inside the handler and outside every \<open>try\<close>, so that
  an exception raised by \<open>__str__\<close> leaves the use case. A handler \<open>except Exception\<close>
  takes the instances of \<open>Exception\<close> and lets every other exception pass.
\<close>

definition Failure_of :: "string \<Rightarrow> exn \<Rightarrow> exn + Result" where
  "Failure_of pre e = (case exn_str e of Inl e1 \<Rightarrow> Inl e1 | Inr m \<Rightarrow> Inr (Failure (pre @ m)))"

definition except_Exception :: "string \<Rightarrow> exn \<Rightarrow> exn + Result" where
  "except_Exception pre e = (if is_Exception e then Failure_of pre e else Inl e)"

definition create_task ::
  "'s Repository \<Rightarrow> 's \<Rightarrow> string \<Rightarrow> string \<Rightarrow> int \<Rightarrow> string list \<Rightarrow> (exn + Result) \<times> 's" where
  "create_task repository s ttl descr cst tgs =
     (case bind_exn (map_exn Tag_getitem (map PStr tgs))
             (\<lambda>ts. Task_init None (PStr ttl) (PStr descr) (PInt cst) TODO ts) of
        Inl e \<Rightarrow>
          if is_ValueError e
          then (Failure_of ''Enterprise rule violation: '' e, s)
          else (except_Exception ''Unexpected enterprise error: '' e, s)
      | Inr task \<Rightarrow>
          (let task_dict =
                 [(''title'', title task),
                  (''description'', description task),
                  (''cost'', PInt (cost task)),
                  (''tags'', PList (map (\<lambda>t. PStr (Tag_name t)) (tags task))),
                  (''status'', PStr (Status_name (status task)))]
           in case repo_add repository s task_dict of
                (Inl e, s1) \<Rightarrow> (except_Exception ''Unexpected adapter error: '' e, s1)
              | (Inr task_dict1, s1) \<Rightarrow> (Inr (Success (PDict task_dict1)), s1)))"

definition create_agent :: "'s Repository \<Rightarrow> 's \<Rightarrow> string \<Rightarrow> (exn + Result) \<times> 's" where
  "create_agent repository s nm =
     (case Inr (Agent_init [] (PStr nm)) of
        Inl e \<Rightarrow> (except_Exception ''Unexpected enterprise error: '' e, s)
      | Inr agent \<Rightarrow>
          (let agent_dict = [(''name'', agent_name agent)]
           in case repo_add repository s agent_dict of
                (Inl e, s1) \<Rightarrow> (except_Exception ''Unexpected adapter error: '' e, s1)
              | (Inr agent_dict1, s1) \<Rightarrow> (Inr (Success (PDict agent_dict1)), s1)))"

definition get_task :: "'s Repository \<Rightarrow> 's \<Rightarrow> string \<Rightarrow> (exn + Result) \<times> 's" where
  "get_task repository s tid =
     (case repo_get repository s tid of
        (Inl e, s1) \<Rightarrow> (except_Exception ''Unexpected adapter error: '' e, s1)
      | (Inr task, s1) \<Rightarrow>
          if task = PNone then (Inr (Failure ''Task not found''), s1)
          else (Inr (Success task), s1))"

definition get_agent :: "'s Repository \<Rightarrow> 's \<Rightarrow> string \<Rightarrow> (exn + Result) \<times> 's" where
  "get_agent repository s aid =
     (case repo_get repository s aid of
        (Inl e, s1) \<Rightarrow> (except_Exception ''Unexpected adapter error: '' e, s1)
      | (Inr agent, s1) \<Rightarrow>
          if agent = PNone then (Inr (Failure ''Agent not found''), s1)
          else (Inr (Success agent), s1))"

text \<open>
  The lines of \<open>assign_task\<close> between the two fetches and the final \<open>add\<close>: the entities
  are built from the records, the task is assigned, and the record to store is built.
\<close>

definition assign_task_record :: "string \<Rightarrow> string \<Rightarrow> pyval \<Rightarrow> pyval \<Rightarrow> exn + pydict" where
  "assign_task_record tid aid task agent =
     bind_exn (py_getitem task ''title'') (\<lambda>ttl.
     bind_exn (py_get task ''description'' (PStr [])) (\<lambda>descr.
     bind_exn (py_get task ''cost'' (PInt 1)) (\<lambda>cst.
     bind_exn (py_get task ''tags'' (PList [PStr ''LOW_PRIORITY''])) (\<lambda>tag_names.
     bind_exn (py_iter tag_names) (\<lambda>tag_list.
     bind_exn (map_exn Tag_getitem tag_list) (\<lambda>tgs.
     bind_exn (py_get task ''status'' (PStr ''TODO'')) (\<lambda>status_name.
     bind_exn (Status_getitem status_name) (\<lambda>st.
     bind_exn (Task_init (Some tid) ttl descr cst st tgs) (\<lambda>task_entity.
     bind_exn (py_getitem agent ''name'') (\<lambda>nm.
       (let agent_entity = Agent_init aid nm;
            task_entity = Task_assign task_entity agent_entity
        in Inr [(''task_id'', (case task_id task_entity of None \<Rightarrow> PNone | Some i \<Rightarrow> PStr i)),
                (''title'', title task_entity),
                (''description'', description task_entity),
                (''cost'', PInt (cost task_entity)),
                (''tags'', PList (map (\<lambda>t. PStr (Tag_name t)) (tags task_entity))),
                (''status'', PStr (Status_name (status task_entity))),
                (''assignee'', PStr (agent_id agent_entity))])))))))))))"

definition assign_task ::
  "'s Repository \<Rightarrow> 't Repository \<Rightarrow> 's \<Rightarrow> 't \<Rightarrow> string \<Rightarrow> string \<Rightarrow> (exn + Result) \<times> 's \<times> 't" where
  "assign_task task_repo agent_repo s a tid aid =
     (case repo_get task_repo s tid of
        (Inl e, s1) \<Rightarrow> (except_Exception ''Unexpected adapter error: '' e, s1, a)
      | (Inr task, s1) \<Rightarrow>
          if task = PNone then (Inr (Failure ''Task not found''), s1, a)
          else
            (case repo_get agent_repo a aid of
               (Inl e, a1) \<Rightarrow> (except_Exception ''Unexpected adapter error: '' e, s1, a1)
             | (Inr agent, a1) \<Rightarrow>
                 if agent = PNone then (Inr (Failure ''Agent not found''), s1, a1)
                 else
                   (case assign_task_record tid aid task agent of
                      Inl e \<Rightarrow> (except_Exception ''Unexpected adapter error: '' e, s1, a1)
                    | Inr result_task \<Rightarrow>
                        (case repo_add task_repo s1 result_task of
                           (Inl e, s2) \<Rightarrow>
                             (except_Exception ''Unexpected adapter error: '' e, s2, a1)
                         | (Inr result_task1, s2) \<Rightarrow>
                             (Inr (Success (PDict result_task1)), s2, a1)))))"

section \<open>The in-memory repositories of \<open>use_cases/test_use_cases.py\<close>\<close>

text \<open>
  \<open>storage\<close> is a dictionary from identifiers to records; \<open>add\<close> numbers the record with
  the size of the storage plus one and stores it under that key.
\<close>

type_synonym storage = "(string \<times> pydict) list"

definition memory_add :: "string \<Rightarrow> storage \<Rightarrow> pydict \<Rightarrow> (exn + pydict) \<times> storage" where
  "memory_add id_key st rec =
     (let new_id = length st + 1;
          rec1 = AList.update id_key (PStr (show_nat new_id)) rec
      in (Inr rec1, AList.update (show_nat new_id) rec1 st))"

definition memory_get :: "storage \<Rightarrow> string \<Rightarrow> (exn + pyval) \<times> storage" where
  "memory_get st key =
     (case map_of st key of
        Some rec \<Rightarrow> (Inr (PDict rec), st)
      | None \<Rightarrow> (Inr PNone, st))"

definition memory_list :: "storage \<Rightarrow> (exn + pyval list) \<times> storage" where
  "memory_list st = (Inr (map (\<lambda>kv. PDict (snd kv)) st), st)"

definition MemoryTaskRepository :: "storage Repository" where
  "MemoryTaskRepository =
     \<lparr>repo_add = memory_add ''task_id'', repo_get = memory_get, repo_list = memory_list\<rparr>"

definition MemoryAgentRepository :: "storage Repository" where
  "MemoryAgentRepository =
     \<lparr>repo_add = memory_add ''agent_id'', repo_get = memory_get, repo_list = memory_list\<rparr>"

text \<open>The names of the members of \<open>Tag\<close>.\<close>

definition tag_names :: "string set" where
  "tag_names = {''HIGH_PRIORITY'', ''MEDIUM_PRIORITY'', ''LOW_PRIORITY''}"

text \<open>
  A repository whose every call raises the given exception, and one that returns a
  record with a cost that is no number.
\<close>

definition raising_repository :: "exn \<Rightarrow> unit Repository" where
  "raising_repository e =
     \<lparr>repo_add = (\<lambda>s rec. (Inl e, s)),
      repo_get = (\<lambda>s key. (Inl e, s)),
      repo_list = (\<lambda>s. (Inl e, s))\<rparr>"

text \<open>
  An exception of a repository's own with the text \<open>connection lost\<close>, the exception
  that \<open>KeyboardInterrupt()\<close> builds, and an exception of a class derived from
  \<open>Exception\<close> whose \<open>__str__\<close> returns \<open>None\<close>, on which \<open>str(e)\<close> raises \<open>TypeError\<close>.
\<close>

definition connection_lost :: exn where
  "connection_lost = OtherException (Inr ''connection lost'')"

definition keyboard_interrupt :: exn where
  "keyboard_interrupt = BaseExceptionOnly (Inr [])"

definition unprintable :: exn where
  "unprintable = OtherException (Inl (TypeError ''__str__ returned non-string (type NoneType)''))"

definition malformed_repository :: "unit Repository" where
  "malformed_repository =
     \<lparr>repo_add = (\<lambda>s rec. (Inr rec, s)),
      repo_get = (\<lambda>s key. (Inr (PDict [(''title'', PStr ''T''), (''cost'', PStr ''high'')]), s)),
      repo_list = (\<lambda>s. (Inr [], s))\<rparr>"

section \<open>Example stores\<close>

text \<open>
  The task that \<open>Task(task_id=None, title="Task")\<close> builds, a store in which every task is
  such a fresh task, and an agent.
\<close>

definition example_task :: Task where
  "example_task =
     \<lparr>task_id = None, title = PStr ''Task'', description = PStr [], cost = 1, status = TODO,
      tags = [], dependencies = [], project = None, assignee = None\<rparr>"

definition fresh_heap :: heap where
  "fresh_heap = (\<lambda>a. example_task)"

definition example_agent :: Agent where
  "example_agent = Agent_init ''a1'' (PStr ''Agent 1'')"

text \<open>Task 0 assigned, started and completed.\<close>

definition done_heap :: heap where
  "done_heap = snd (complete_task (snd (start_task (assign fresh_heap 0 example_agent) 0)) 0)"

text \<open>
  Task 0 depends on tasks 1 and 2, and task 1 depends on task 2: the store after
  \<open>t0.add_dependency(t1)\<close>, \<open>t0.add_dependency(t2)\<close> and \<open>t1.add_dependency(t2)\<close>.
\<close>

definition triangle_heap :: heap where
  "triangle_heap = with_dependency (with_dependency (with_dependency fresh_heap 0 1) 0 2) 1 2"

text \<open>Three tasks of costs 5, 10 and 100.\<close>

definition makespan_heap :: heap where
  "makespan_heap =
     fresh_heap(0 := example_task\<lparr>cost := 5\<rparr>, 1 := example_task\<lparr>cost := 10\<rparr>,
                2 := example_task\<lparr>cost := 100\<rparr>)"

text \<open>Tasks 0 and 1 depend on each other.\<close>

definition cycle_heap :: heap where
  "cycle_heap = with_dependency (with_dependency fresh_heap 0 1) 1 0"

text \<open>Task 0 depends on task 1; tasks 1 and 2 both depend on task 3.\<close>

definition diamond_heap :: heap where
  "diamond_heap = with_dependency (with_dependency (with_dependency fresh_heap 0 1) 1 3) 2 3"

section \<open>Properties of the validation loop\<close>

lemma validate_loop_induct [consumes 1, case_names empty seen_again push]:
  assumes run: "validate_loop h seen stack = Some b"
    and empty: "\<And>seen. P seen [] True"
    and again: "\<And>seen stack. stack \<noteq> [] \<Longrightarrow> last stack \<in> seen \<Longrightarrow> P seen stack False"
    and push: "\<And>seen stack b. stack \<noteq> [] \<Longrightarrow> last stack \<notin> seen \<Longrightarrow>
        validate_loop h (insert (last stack) seen)
          (butlast stack @ dependencies (h (last stack))) = Some b \<Longrightarrow>
        P (insert (last stack) seen) (butlast stack @ dependencies (h (last stack))) b \<Longrightarrow>
        P seen stack b"
  shows "P seen stack b"
proof -
  let ?Q = "\<lambda>h' seen stack b. h' = h \<longrightarrow> validate_loop h seen stack = Some b \<and> P seen stack b"
  have "?Q h seen stack b"
  proof (rule validate_loop.raw_induct [where P = ?Q, OF _ run], goal_cases)
    case (1 vl h' seen stack b)
    show ?case
    proof
      assume h': "h' = h"
      show "validate_loop h seen stack = Some b \<and> P seen stack b"
      proof (cases "stack = []")
        case True
        with 1(2) show ?thesis
          by (simp add: validate_loop.simps empty)
      next
        case ne: False
        show ?thesis
        proof (cases "last stack \<in> seen")
          case True
          with ne 1(2) show ?thesis
            by (simp add: validate_loop.simps [of h seen stack] again)
        next
          case False
          with ne 1(2) h'
          have "vl h (insert (last stack) seen)
                  (butlast stack @ dependencies (h (last stack))) = Some b"
            by simp
          from 1(1) [OF this] h'
          have rec: "validate_loop h (insert (last stack) seen)
                  (butlast stack @ dependencies (h (last stack))) = Some b"
            and P: "P (insert (last stack) seen)
                  (butlast stack @ dependencies (h (last stack))) b"
            by simp_all
          from rec ne False have "validate_loop h seen stack = Some b"
            by (simp add: validate_loop.simps [of h seen stack])
          moreover from push [OF ne False rec P] have "P seen stack b" .
          ultimately show ?thesis ..
        qed
      qed
    qed
  qed
  then show ?thesis by simp
qed


lemma stack_cases [consumes 2]:
  assumes "stack \<noteq> []" and "x \<in> set stack"
  obtains "x \<in> set (butlast stack)" | "x = last stack"
  using assms by (cases stack rule: rev_cases) auto

lemma validate_loop_True_unseen:
  assumes "validate_loop h seen stack = Some b" and "b"
    and "x \<in> set stack" and "(x, y) \<in> (dep_rel h)\<^sup>*"
  shows "y \<notin> seen"
  using assms
proof (induction arbitrary: x y rule: validate_loop_induct)
  case (empty seen)
  then show ?case by simp
next
  case (seen_again seen stack)
  then show ?case by simp
next
  case (push seen stack b)
  let ?cur = "last stack"
  let ?stack' = "butlast stack @ dependencies (h ?cur)"
  from push.hyps(1) push.prems(2) show ?case
  proof (cases rule: stack_cases)
    case 1
    then have "x \<in> set ?stack'" by simp
    from push.IH [OF \<open>b\<close> this push.prems(3)] show ?thesis by simp
  next
    case 2
    from push.prems(3) show ?thesis
    proof (cases rule: converse_rtranclE)
      case base
      with 2 push.hyps(2) show ?thesis by simp
    next
      case (step d)
      with 2 have "d \<in> set ?stack'" by (simp add: dep_rel_def)
      from push.IH [OF \<open>b\<close> this step(2)] show ?thesis by simp
    qed
  qed
qed

lemma validate_loop_True_distinct:
  assumes "validate_loop h seen stack = Some b" and "b"
  shows "distinct stack"
  using assms
proof (induction rule: validate_loop_induct)
  case (empty seen)
  then show ?case by simp
next
  case (seen_again seen stack)
  then show ?case by simp
next
  case (push seen stack b)
  let ?cur = "last stack"
  let ?stack' = "butlast stack @ dependencies (h ?cur)"
  from push.IH [OF \<open>b\<close>] have d: "distinct (butlast stack)" by simp
  have "?cur \<notin> set (butlast stack)"
  proof
    assume "?cur \<in> set (butlast stack)"
    then have "?cur \<in> set ?stack'" by simp
    from validate_loop_True_unseen [OF push.hyps(3) \<open>b\<close> this rtrancl.rtrancl_refl]
    show False by simp
  qed
  with d have "distinct (butlast stack @ [?cur])" by simp
  with push.hyps(1) show ?case by simp
qed

lemma validate_loop_True_disjoint:
  assumes "validate_loop h seen stack = Some b" and "b"
    and "x \<in> set stack" and "y \<in> set stack" and "x \<noteq> y"
    and "(x, z) \<in> (dep_rel h)\<^sup>*" and "(y, z) \<in> (dep_rel h)\<^sup>*"
  shows False
  using assms
proof (induction arbitrary: x y z rule: validate_loop_induct)
  case (empty seen)
  then show ?case by simp
next
  case (seen_again seen stack)
  then show ?case by simp
next
  case (push seen stack b)
  let ?cur = "last stack"
  let ?stack' = "butlast stack @ dependencies (h ?cur)"
  have dist: "distinct ?stack'"
    using validate_loop_True_distinct [OF push.hyps(3) \<open>b\<close>] .
  have key: False
    if u: "u \<in> set (butlast stack)" and uz: "(u, z) \<in> (dep_rel h)\<^sup>*"
      and cz: "(?cur, z) \<in> (dep_rel h)\<^sup>*" for u z
    using cz
  proof (cases rule: converse_rtranclE)
    case base
    from u have "u \<in> set ?stack'" by simp
    from validate_loop_True_unseen [OF push.hyps(3) \<open>b\<close> this uz] base
    show False by simp
  next
    case (step d)
    then have d: "d \<in> set (dependencies (h ?cur))" by (simp add: dep_rel_def)
    with u dist have "u \<noteq> d" by auto
    moreover from u have "u \<in> set ?stack'" by simp
    moreover from d have "d \<in> set ?stack'" by simp
    ultimately show False
      using push.IH [OF \<open>b\<close> _ _ _ uz step(2)] by blast
  qed
  from push.hyps(1) push.prems(2) show ?case
  proof (cases rule: stack_cases)
    case x: 1
    from push.hyps(1) push.prems(3) show ?thesis
    proof (cases rule: stack_cases)
      case y: 1
      from x y have "x \<in> set ?stack'" "y \<in> set ?stack'" by simp_all
      from push.IH [OF \<open>b\<close> this push.prems(4-6)] show ?thesis .
    next
      case y: 2
      from key [OF x push.prems(5)] push.prems(6) y show ?thesis by simp
    qed
  next
    case x: 2
    from push.hyps(1) push.prems(3) show ?thesis
    proof (cases rule: stack_cases)
      case y: 1
      from key [OF y push.prems(6)] push.prems(5) x show ?thesis by simp
    next
      case y: 2
      with x push.prems(4) show ?thesis by simp
    qed
  qed
qed


lemma reachable_closed:
  "y \<in> reachable h x \<Longrightarrow> d \<in> set (dependencies (h y)) \<Longrightarrow> d \<in> reachable h x"
  unfolding reachable_def dep_rel_def
  by (auto intro: rtrancl_into_rtrancl)

lemma reachable_self: "x \<in> reachable h x"
  by (simp add: reachable_def)

lemma finite_heap_reachable:
  assumes "finite_heap h"
  shows "finite (reachable h x)"
proof -
  let ?S = "{a. dependencies (h a) \<noteq> []}"
  have "reachable h x \<subseteq> insert x (\<Union>a\<in>?S. set (dependencies (h a)))"
  proof
    fix y assume "y \<in> reachable h x"
    then have "(x, y) \<in> (dep_rel h)\<^sup>*" by (simp add: reachable_def)
    then show "y \<in> insert x (\<Union>a\<in>?S. set (dependencies (h a)))"
    proof (cases rule: rtranclE)
      case base
      then show ?thesis by simp
    next
      case (step u)
      then have "y \<in> set (dependencies (h u))" by (simp add: dep_rel_def)
      moreover from this have "u \<in> ?S" by auto
      ultimately show ?thesis by blast
    qed
  qed
  moreover from assms have "finite (insert x (\<Union>a\<in>?S. set (dependencies (h a))))"
    by (simp add: finite_heap_def)
  ultimately show ?thesis by (rule finite_subset)
qed

lemma validate_fuel_enough:
  assumes "finite R" and "\<forall>y\<in>R. set (dependencies (h y)) \<subseteq> R"
    and "set stack \<subseteq> R" and "card (R - seen) < n"
  shows "\<exists>b. validate_fuel n h seen stack = Some b"
  using assms(3,4)
proof (induction n arbitrary: seen stack)
  case 0
  then show ?case by simp
next
  case (Suc n)
  show ?case
  proof (cases "stack = [] \<or> last stack \<in> seen")
    case True
    then show ?thesis by auto
  next
    case False
    then have ne: "stack \<noteq> []" and new: "last stack \<notin> seen" by simp_all
    from ne Suc.prems(1) have inR: "last stack \<in> R" by auto
    with assms(2) have "set (dependencies (h (last stack))) \<subseteq> R" by simp
    moreover from Suc.prems(1) have "set (butlast stack) \<subseteq> R"
      by (meson in_set_butlastD subset_code(1))
    ultimately have sub: "set (butlast stack @ dependencies (h (last stack))) \<subseteq> R" by simp
    have eq: "R - insert (last stack) seen = (R - seen) - {last stack}" by auto
    from inR new have "last stack \<in> R - seen" by simp
    moreover from assms(1) have "finite (R - seen)" by simp
    ultimately have "card ((R - seen) - {last stack}) < card (R - seen)"
      by (rule card_Diff1_less [rotated])
    with eq have "card (R - insert (last stack) seen) < card (R - seen)" by simp
    with Suc.prems(2) have "card (R - insert (last stack) seen) < n" by simp
    from Suc.IH [OF sub this] ne new show ?thesis by simp
  qed
qed

lemma validate_fuel_loop:
  "validate_fuel n h seen stack = Some b \<Longrightarrow> validate_loop h seen stack = Some b"
proof (induction n arbitrary: seen stack)
  case 0
  then have "stack = []" "b" by (simp_all split: if_splits)
  then show ?case by (simp add: validate_loop.simps [of h seen "[]"])
next
  case (Suc n)
  show ?case
  proof (cases "stack = [] \<or> last stack \<in> seen")
    case True
    with Suc.prems show ?thesis
      by (auto simp: validate_loop.simps [of h seen stack])
  next
    case False
    with Suc.prems have "validate_fuel n h (insert (last stack) seen)
        (butlast stack @ dependencies (h (last stack))) = Some b" by simp
    from Suc.IH [OF this] False show ?thesis
      by (simp add: validate_loop.simps [of h seen stack])
  qed
qed

lemma validate_dependencies_returns:
  assumes "finite (reachable h task)"
  shows "\<exists>b. validate_fuel (Suc (card (reachable h task))) h {} [task] = Some b \<and>
             validate_dependencies h task = Some b"
proof -
  have "\<forall>y\<in>reachable h task. set (dependencies (h y)) \<subseteq> reachable h task"
    by (auto intro: reachable_closed)
  moreover have "set [task] \<subseteq> reachable h task" by (simp add: reachable_self)
  moreover have "card (reachable h task - {}) < Suc (card (reachable h task))" by simp
  ultimately obtain b where "validate_fuel (Suc (card (reachable h task))) h {} [task] = Some b"
    using validate_fuel_enough [OF assms] by blast
  moreover from validate_fuel_loop [OF this]
  have "validate_dependencies h task = Some b"
    by (simp add: validate_dependencies_def)
  ultimately show ?thesis by blast
qed

subsection \<open>The validation succeeds exactly on trees\<close>

lemma validate_loop_True_distinct_deps:
  assumes "validate_loop h seen stack = Some b" and "b"
    and "x \<in> set stack" and "(x, u) \<in> (dep_rel h)\<^sup>*"
  shows "distinct (dependencies (h u))"
  using assms
proof (induction arbitrary: x rule: validate_loop_induct)
  case (empty seen)
  then show ?case by simp
next
  case (seen_again seen stack)
  then show ?case by simp
next
  case (push seen stack b)
  let ?cur = "last stack"
  let ?stack' = "butlast stack @ dependencies (h ?cur)"
  from push.hyps(1) push.prems(2) show ?case
  proof (cases rule: stack_cases)
    case 1
    then have "x \<in> set ?stack'" by simp
    from push.IH [OF \<open>b\<close> this push.prems(3)] show ?thesis .
  next
    case 2
    from push.prems(3) show ?thesis
    proof (cases rule: converse_rtranclE)
      case base
      from validate_loop_True_distinct [OF push.hyps(3) \<open>b\<close>] 2 base
      show ?thesis by simp
    next
      case (step e)
      with 2 have "e \<in> set ?stack'" by (simp add: dep_rel_def)
      from push.IH [OF \<open>b\<close> this step(2)] show ?thesis .
    qed
  qed
qed

lemma validate_loop_True_no_return:
  assumes "validate_loop h seen stack = Some b" and "b"
    and "x \<in> set stack" and "(x, u) \<in> (dep_rel h)\<^sup>*" and "x \<in> set (dependencies (h u))"
  shows False
  using assms
proof (induction arbitrary: x u rule: validate_loop_induct)
  case (empty seen)
  then show ?case by simp
next
  case (seen_again seen stack)
  then show ?case by simp
next
  case (push seen stack b)
  let ?cur = "last stack"
  let ?stack' = "butlast stack @ dependencies (h ?cur)"
  from push.hyps(1) push.prems(2) show ?case
  proof (cases rule: stack_cases)
    case 1
    then have "x \<in> set ?stack'" by simp
    from push.IH [OF \<open>b\<close> this push.prems(3,4)] show ?thesis .
  next
    case 2
    from push.prems(4) have ux: "(u, x) \<in> dep_rel h" by (simp add: dep_rel_def)
    from push.prems(3) show ?thesis
    proof (cases rule: converse_rtranclE)
      case base
      with 2 push.prems(4) have "?cur \<in> set ?stack'" by simp
      from validate_loop_True_unseen [OF push.hyps(3) \<open>b\<close> this rtrancl.rtrancl_refl]
      show ?thesis by simp
    next
      case (step e)
      with 2 have e: "e \<in> set ?stack'" by (simp add: dep_rel_def)
      from step(2) ux 2 have "(e, ?cur) \<in> (dep_rel h)\<^sup>*" by (auto intro: rtrancl_into_rtrancl)
      from validate_loop_True_unseen [OF push.hyps(3) \<open>b\<close> e this]
      show ?thesis by simp
    qed
  qed
qed

lemma validate_loop_True_one_parent:
  assumes "validate_loop h seen stack = Some b" and "b"
    and "x \<in> set stack" and "(x, u) \<in> (dep_rel h)\<^sup>*"
    and "x' \<in> set stack" and "(x', u') \<in> (dep_rel h)\<^sup>*"
    and "v \<in> set (dependencies (h u))" and "v \<in> set (dependencies (h u'))"
  shows "u = u'"
  using assms
proof (induction arbitrary: x x' u u' rule: validate_loop_induct)
  case (empty seen)
  then show ?case by simp
next
  case (seen_again seen stack)
  then show ?case by simp
next
  case (push seen stack b)
  let ?cur = "last stack"
  let ?stack' = "butlast stack @ dependencies (h ?cur)"
  note run = push.hyps(3)
  have below: "\<exists>y\<in>set ?stack'. (y, w) \<in> (dep_rel h)\<^sup>*"
    if "y0 \<in> set stack" and "(y0, w) \<in> (dep_rel h)\<^sup>*" and "w \<noteq> ?cur" for y0 w
    using push.hyps(1) that(1)
  proof (cases rule: stack_cases)
    case 1
    with that(2) show ?thesis by auto
  next
    case 2
    from that(2) show ?thesis
    proof (cases rule: converse_rtranclE)
      case base
      with 2 that(3) show ?thesis by simp
    next
      case (step e)
      with 2 have "e \<in> set ?stack'" by (simp add: dep_rel_def)
      with step(2) show ?thesis by blast
    qed
  qed
  have one: False
    if v: "v \<in> set (dependencies (h ?cur))" and w: "w \<noteq> ?cur"
      and y: "y0 \<in> set stack" "(y0, w) \<in> (dep_rel h)\<^sup>*" and vw: "v \<in> set (dependencies (h w))"
    for w y0
  proof -
    from below [OF y w] obtain y where y': "y \<in> set ?stack'" "(y, w) \<in> (dep_rel h)\<^sup>*"
      by blast
    from v have v': "v \<in> set ?stack'" by simp
    from vw have "(w, v) \<in> dep_rel h" by (simp add: dep_rel_def)
    with y'(2) have yv: "(y, v) \<in> (dep_rel h)\<^sup>*" by (rule rtrancl_into_rtrancl)
    show False
    proof (cases "y = v")
      case True
      with validate_loop_True_no_return [OF run \<open>b\<close> v' _ vw] y'(2) show False by simp
    next
      case False
      from validate_loop_True_disjoint [OF run \<open>b\<close> y'(1) v' False yv rtrancl.rtrancl_refl]
      show False .
    qed
  qed
  show ?case
  proof (cases "u = ?cur")
    case u: True
    show ?thesis
    proof (cases "u' = ?cur")
      case True
      with u show ?thesis by simp
    next
      case False
      from one [OF _ False push.prems(4,5) push.prems(7)] push.prems(6) u
      show ?thesis by simp
    qed
  next
    case u: False
    show ?thesis
    proof (cases "u' = ?cur")
      case True
      from one [OF _ u push.prems(2,3) push.prems(6)] push.prems(7) True
      show ?thesis by simp
    next
      case False
      from below [OF push.prems(2,3) u] obtain y where y: "y \<in> set ?stack'" "(y, u) \<in> (dep_rel h)\<^sup>*"
        by blast
      from below [OF push.prems(4,5) False] obtain y' where y': "y' \<in> set ?stack'" "(y', u') \<in> (dep_rel h)\<^sup>*"
        by blast
      from push.IH [OF \<open>b\<close> y y' push.prems(6,7)] show ?thesis .
    qed
  qed
qed

lemma validate_dependencies_True_tree:
  assumes "validate_dependencies h r = Some True"
  shows "tree_from h r"
proof -
  from assms have run: "validate_loop h {} [r] = Some True"
    by (simp add: validate_dependencies_def)
  have top: "r \<in> set [r]" by simp
  have reach: "(r, u) \<in> (dep_rel h)\<^sup>*" if "u \<in> reachable h r" for u
    using that by (simp add: reachable_def)
  show ?thesis
    unfolding tree_from_def
  proof (intro conjI ballI impI)
    fix u assume "u \<in> reachable h r"
    from validate_loop_True_distinct_deps [OF run TrueI top reach [OF this]]
    show "distinct (dependencies (h u))" .
  next
    fix u assume "u \<in> reachable h r"
    from validate_loop_True_no_return [OF run TrueI top reach [OF this]]
    show "r \<notin> set (dependencies (h u))" by blast
  next
    fix u u' assume u: "u \<in> reachable h r" and u': "u' \<in> reachable h r"
      and "set (dependencies (h u)) \<inter> set (dependencies (h u')) \<noteq> {}"
    then obtain v where "v \<in> set (dependencies (h u))" "v \<in> set (dependencies (h u'))"
      by blast
    from validate_loop_True_one_parent [OF run TrueI top reach [OF u] top reach [OF u'] this]
    show "u = u'" .
  qed
qed


lemma tree_validate_fuel:
  assumes tree: "tree_from h r" and fin: "finite (reachable h r)"
    and dist: "distinct stack" and new: "set stack \<inter> seen = {}"
    and seen: "seen \<subseteq> reachable h r" and stack: "set stack \<subseteq> reachable h r"
    and parent: "\<forall>x\<in>seen \<union> set stack. x = r \<or> (\<exists>u\<in>seen. x \<in> set (dependencies (h u)))"
    and fuel: "card (reachable h r - seen) < n"
  shows "validate_fuel n h seen stack = Some True"
  using dist new seen stack parent fuel
proof (induction n arbitrary: seen stack)
  case 0
  then show ?case by simp
next
  case (Suc n)
  show ?case
  proof (cases "stack = []")
    case True
    then show ?thesis by simp
  next
    case ne: False
    let ?R = "reachable h r"
    let ?cur = "last stack"
    let ?deps = "dependencies (h ?cur)"
    from ne have split: "stack = butlast stack @ [?cur]" by simp
    from ne have cur_in: "?cur \<in> set stack" by simp
    with Suc.prems(2) have cur_new: "?cur \<notin> seen" by auto
    from cur_in Suc.prems(4) have cur_R: "?cur \<in> ?R" by auto
    from Suc.prems(1) split have d_rest: "distinct (butlast stack)"
      and cur_rest: "?cur \<notin> set (butlast stack)"
      by (metis distinct_append, metis distinct_append disjoint_iff list.set_intros(1))
    have rest_stack: "set (butlast stack) \<subseteq> set stack"
      by (meson in_set_butlastD subsetI)
    have fresh: "d \<notin> seen \<union> set stack" if d: "d \<in> set ?deps" for d
    proof
      assume "d \<in> seen \<union> set stack"
      with Suc.prems(5) have "d = r \<or> (\<exists>u\<in>seen. d \<in> set (dependencies (h u)))" by blast
      then show False
      proof
        assume "d = r"
        with tree cur_R d show False by (auto simp: tree_from_def)
      next
        assume "\<exists>u\<in>seen. d \<in> set (dependencies (h u))"
        then obtain u where u: "u \<in> seen" "d \<in> set (dependencies (h u))" by blast
        with Suc.prems(3) have "u \<in> ?R" by auto
        with tree cur_R u(2) d have "u = ?cur"
          unfolding tree_from_def by blast
        with u(1) cur_new show False by simp
      qed
    qed
    from tree cur_R have d_deps: "distinct ?deps" by (simp add: tree_from_def)
    have dist': "distinct (butlast stack @ ?deps)"
      using d_rest d_deps fresh rest_stack by auto
    have new': "set (butlast stack @ ?deps) \<inter> insert ?cur seen = {}"
      using Suc.prems(2) cur_rest fresh rest_stack cur_in by auto
    have seen': "insert ?cur seen \<subseteq> ?R"
      using Suc.prems(3) cur_R by simp
    have stack': "set (butlast stack @ ?deps) \<subseteq> ?R"
      using Suc.prems(4) rest_stack cur_R by (auto intro: reachable_closed)
    have parent': "\<forall>x\<in>insert ?cur seen \<union> set (butlast stack @ ?deps).
        x = r \<or> (\<exists>u\<in>insert ?cur seen. x \<in> set (dependencies (h u)))"
    proof
      fix x assume "x \<in> insert ?cur seen \<union> set (butlast stack @ ?deps)"
      then consider "x \<in> seen \<union> set stack" | "x \<in> set ?deps"
        using rest_stack cur_in by auto
      then show "x = r \<or> (\<exists>u\<in>insert ?cur seen. x \<in> set (dependencies (h u)))"
      proof cases
        case 1
        with Suc.prems(5) show ?thesis by blast
      next
        case 2
        then show ?thesis by blast
      qed
    qed
    have eq: "?R - insert ?cur seen = (?R - seen) - {?cur}" by auto
    from cur_R cur_new have "?cur \<in> ?R - seen" by simp
    moreover from fin have "finite (?R - seen)" by simp
    ultimately have "card ((?R - seen) - {?cur}) < card (?R - seen)"
      by (rule card_Diff1_less [rotated])
    with eq Suc.prems(6) have fuel': "card (?R - insert ?cur seen) < n" by simp
    from Suc.IH [OF dist' new' seen' stack' parent' fuel'] ne cur_new
    show ?thesis by simp
  qed
qed

lemma tree_validate_dependencies:
  assumes "tree_from h r" and "finite (reachable h r)"
  shows "validate_dependencies h r = Some True"
proof -
  have "validate_fuel (Suc (card (reachable h r))) h {} [r] = Some True"
    by (rule tree_validate_fuel [OF assms]) (simp_all add: reachable_self)
  from validate_fuel_loop [OF this] show ?thesis
    by (simp add: validate_dependencies_def)
qed

lemma validate_dependencies_tree:
  assumes "finite (reachable h r)"
  shows "validate_dependencies h r = Some (tree_from h r)"
proof (cases "tree_from h r")
  case True
  with tree_validate_dependencies [OF True assms] show ?thesis by simp
next
  case False
  from validate_dependencies_returns [OF assms] obtain b
    where b: "validate_dependencies h r = Some b" by blast
  with False validate_dependencies_True_tree [of h r] show ?thesis by (cases b) auto
qed

text \<open>
  The outcome of the validation depends on the dependency sets only, not on the order in
  which a set is iterated over.
\<close>

lemma validate_dependencies_order:
  assumes "\<forall>a. set (dependencies (h a)) = set (dependencies (g a)) \<and>
               distinct (dependencies (h a)) \<and> distinct (dependencies (g a))"
    and "finite (reachable h r)"
  shows "validate_dependencies h r = validate_dependencies g r"
proof -
  from assms(1) have rel: "dep_rel h = dep_rel g" by (simp add: dep_rel_def)
  then have reach: "reachable h x = reachable g x" for x by (simp add: reachable_def)
  from assms(1) reach have "tree_from h r = tree_from g r"
    by (simp add: tree_from_def)
  moreover from assms(2) reach have "finite (reachable g r)" by simp
  ultimately show ?thesis
    using assms(2) by (simp add: validate_dependencies_tree)
qed

section \<open>Makespan boundaries\<close>

lemma py_max_Max: "py_max m xs = Max (set (m # xs))"
proof (induction xs arbitrary: m)
  case Nil
  then show ?case by simp
next
  case (Cons x xs)
  have "Max (insert (if m < x then x else m) (set xs)) = Max (insert m (insert x (set xs)))"
    by (cases "set xs = {}") (auto simp: max_def)
  with Cons show ?case by simp
qed

text \<open>
  C7. \<open>get_makespan_boundaries\<close> returns \<open>(0, 0)\<close> for the empty list; for a non-empty
  list it returns the largest cost of a single task paired with the sum of all costs;
  for the costs 5, 10, 100 the result is \<open>(100, 115)\<close>.
\<close>

theorem get_makespan_boundaries_spec:
  "get_makespan_boundaries h [] = (0, 0) \<and>
   (tasks \<noteq> [] \<longrightarrow>
      get_makespan_boundaries h tasks =
        (Max (set (map (\<lambda>task. cost (h task)) tasks)),
         sum_list (map (\<lambda>task. cost (h task)) tasks))) \<and>
   (map (\<lambda>task. cost (h task)) tasks = [5, 10, 100] \<longrightarrow>
      get_makespan_boundaries h tasks = (100, 115))"
proof (intro conjI impI)
  show "get_makespan_boundaries h [] = (0, 0)"
    by (simp add: get_makespan_boundaries_def)
next
  assume "tasks \<noteq> []"
  then obtain t ts where "tasks = t # ts" by (cases tasks) auto
  then show "get_makespan_boundaries h tasks =
        (Max (set (map (\<lambda>task. cost (h task)) tasks)),
         sum_list (map (\<lambda>task. cost (h task)) tasks))"
    by (simp add: get_makespan_boundaries_def py_max_Max)
next
  assume c: "map (\<lambda>task. cost (h task)) tasks = [5, 10, 100]"
  then obtain t ts where ts: "tasks = t # ts" by (cases tasks) auto
  with c have "cost (h t) = 5" "map (\<lambda>task. cost (h task)) ts = [10, 100]" by simp_all
  with ts c show "get_makespan_boundaries h tasks = (100, 115)"
    by (simp add: get_makespan_boundaries_def)
qed

theorem get_makespan_boundaries_witness:
  "[0::nat, 1, 2] \<noteq> [] \<and>
   map (\<lambda>task. cost (makespan_heap task)) [0, 1, 2] = [5, 10, 100] \<and>
   get_makespan_boundaries makespan_heap [0, 1, 2] = (100, 115) \<and>
   get_makespan_boundaries makespan_heap [0, 1, 2] =
     (Max (set (map (\<lambda>task. cost (makespan_heap task)) [0, 1, 2])),
      sum_list (map (\<lambda>task. cost (makespan_heap task)) [0, 1, 2]))"
  using get_makespan_boundaries_spec [of makespan_heap "[0, 1, 2]"]
  by (simp add: makespan_heap_def)

section \<open>Status tally\<close>

lemma Counter_lookup:
  "Counter m xs k =
     (if k \<in> set xs then Some ((case m k of None \<Rightarrow> 0 | Some c \<Rightarrow> c) + count_list xs k)
      else m k)"
  by (induction xs arbitrary: m) auto

lemma track_statuses_lookup:
  "track_statuses h tasks s =
     (if s \<in> set (map (\<lambda>task. status (h task)) tasks)
      then Some (length (filter (\<lambda>task. status (h task) = s) tasks))
      else None)"
proof -
  have "count_list (map (\<lambda>task. status (h task)) tasks) s =
        length (filter (\<lambda>task. status (h task) = s) tasks)"
    by (induction tasks) auto
  then show ?thesis
    by (simp add: track_statuses_def Counter_lookup)
qed

text \<open>
  C8. \<open>track_statuses\<close> maps exactly the statuses that occur in the list to their counts:
  a status borne by some task of the list maps to the number of tasks of the list that
  bear it, a status borne by none has no entry, and the counts add up to the length of
  the list.
\<close>

theorem track_statuses_spec:
  "(\<forall>s. track_statuses h tasks s =
      (if s \<in> status ` h ` set tasks
       then Some (length (filter (\<lambda>task. status (h task) = s) tasks))
       else None)) \<and>
   dom (track_statuses h tasks) = status ` h ` set tasks \<and>
   (\<Sum>s\<in>dom (track_statuses h tasks). the (track_statuses h tasks s)) = length tasks"
proof -
  let ?sts = "map (\<lambda>task. status (h task)) tasks"
  have img: "status ` h ` set tasks = set ?sts" by auto
  have look: "track_statuses h tasks s =
      (if s \<in> set ?sts then Some (count_list ?sts s) else None)" for s
    by (simp add: track_statuses_def Counter_lookup)
  have d: "dom (track_statuses h tasks) = set ?sts"
    by (auto simp: look dom_def)
  have "(\<Sum>s\<in>set ?sts. the (track_statuses h tasks s)) = (\<Sum>s\<in>set ?sts. count_list ?sts s)"
    by (rule sum.cong) (simp_all add: look)
  also have "\<dots> = length ?sts"
    by (rule sum_count_set) simp_all
  finally have "(\<Sum>s\<in>dom (track_statuses h tasks). the (track_statuses h tasks s)) = length tasks"
    by (simp add: d)
  with d img track_statuses_lookup [of h tasks] show ?thesis
    by (simp del: set_map)
qed


section \<open>Adding a dependency\<close>

lemma validate_loop_True_no_diamond:
  assumes "validate_loop h seen stack = Some b" and "b"
    and "x \<in> set stack" and "(x, u) \<in> (dep_rel h)\<^sup>*"
    and "c \<in> set (dependencies (h u))" and "d \<in> set (dependencies (h u))" and "c \<noteq> d"
    and "(c, z) \<in> (dep_rel h)\<^sup>*" and "(d, z) \<in> (dep_rel h)\<^sup>*"
  shows False
  using assms(1-4)
proof (induction arbitrary: x rule: validate_loop_induct)
  case (empty seen)
  then show ?case by simp
next
  case (seen_again seen stack)
  then show ?case by simp
next
  case (push seen stack b)
  let ?cur = "last stack"
  let ?stack' = "butlast stack @ dependencies (h ?cur)"
  from push.hyps(1) push.prems(2) show ?case
  proof (cases rule: stack_cases)
    case 1
    then have "x \<in> set ?stack'" by simp
    from push.IH [OF \<open>b\<close> this push.prems(3)] show ?thesis .
  next
    case 2
    from push.prems(3) show ?thesis
    proof (cases rule: converse_rtranclE)
      case base
      with 2 assms(5,6) have "c \<in> set ?stack'" "d \<in> set ?stack'" by simp_all
      from validate_loop_True_disjoint [OF push.hyps(3) \<open>b\<close> this assms(7-9)]
      show ?thesis .
    next
      case (step e)
      with 2 have "e \<in> set ?stack'" by (simp add: dep_rel_def)
      from push.IH [OF \<open>b\<close> this step(2)] show ?thesis .
    qed
  qed
qed

lemma validate_dependencies_True_no_cycle:
  assumes "validate_dependencies h self = Some True"
    and "other \<in> set (dependencies (h self))" and "(other, self) \<in> (dep_rel h)\<^sup>*"
  shows False
proof -
  from assms(1) have "validate_loop h {self} (dependencies (h self)) = Some True"
    by (simp add: validate_dependencies_def validate_loop.simps [of h "{}" "[self]"])
  from validate_loop_True_unseen [OF this _ assms(2,3)] show False by simp
qed

lemma validate_dependencies_True_no_diamond:
  assumes "validate_dependencies h self = Some True"
    and "u \<in> reachable h self"
    and "c \<in> set (dependencies (h u))" and "d \<in> set (dependencies (h u))" and "c \<noteq> d"
    and "z \<in> reachable h c" and "z \<in> reachable h d"
  shows False
proof -
  from assms(1) have run: "validate_loop h {} [self] = Some True"
    by (simp add: validate_dependencies_def)
  have top: "self \<in> set [self]" by simp
  from assms(2) have su: "(self, u) \<in> (dep_rel h)\<^sup>*" by (simp add: reachable_def)
  from assms(6,7) have cz: "(c, z) \<in> (dep_rel h)\<^sup>*" and dz: "(d, z) \<in> (dep_rel h)\<^sup>*"
    by (simp_all add: reachable_def)
  from validate_loop_True_no_diamond [OF run TrueI top su assms(3,4,5) cz dz]
  show False .
qed

lemma finite_heap_with_dependency:
  assumes "finite_heap h"
  shows "finite_heap (with_dependency h self other)"
proof -
  have "{a. dependencies (with_dependency h self other a) \<noteq> []}
        \<subseteq> insert self {a. dependencies (h a) \<noteq> []}"
    by (auto simp: with_dependency_def)
  with assms show ?thesis
    unfolding finite_heap_def by (meson finite_insert finite_subset)
qed

lemma dependencies_with_dependency:
  "set (dependencies (with_dependency h self other a)) =
     (if a = self then insert other (set (dependencies (h a))) else set (dependencies (h a)))"
  by (auto simp: with_dependency_def set_add_def)

lemma add_dependency_result:
  assumes "finite_heap h"
  shows "\<exists>b. validate_dependencies (with_dependency h self other) self = Some b \<and>
             add_dependency h self other =
               Some (if b then with_dependency h self other
                     else without_dependency (with_dependency h self other) self other)"
proof -
  from finite_heap_with_dependency [OF assms]
  have "finite (reachable (with_dependency h self other) self)"
    by (rule finite_heap_reachable)
  from validate_dependencies_returns [OF this]
  obtain b where "validate_dependencies (with_dependency h self other) self = Some b" by blast
  then show ?thesis by (auto simp: add_dependency_def)
qed

lemma dependencies_without_dependency:
  "other \<notin> set (dependencies (without_dependency h self other self))"
  by (simp add: without_dependency_def set_remove_def)

lemma add_dependency_kept_iff:
  assumes "finite_heap h"
  shows "\<exists>h1. add_dependency h self other = Some h1 \<and>
           (other \<in> set (dependencies (h1 self)) \<longleftrightarrow>
            validate_dependencies (with_dependency h self other) self = Some True) \<and>
           (other \<in> set (dependencies (h1 self)) \<longrightarrow> h1 = with_dependency h self other)"
proof -
  from add_dependency_result [OF assms, of self other]
  obtain b where b: "validate_dependencies (with_dependency h self other) self = Some b"
    and r: "add_dependency h self other =
               Some (if b then with_dependency h self other
                     else without_dependency (with_dependency h self other) self other)"
    by blast
  show ?thesis
  proof (cases b)
    case True
    with b r show ?thesis by (simp add: dependencies_with_dependency)
  next
    case False
    with b r show ?thesis by (simp add: dependencies_without_dependency)
  qed
qed

text \<open>
  In terms of the graph alone: the edge is kept exactly when, with the edge added, the
  tasks reachable from \<open>self\<close> form a tree.
\<close>

lemma add_dependency_kept_iff_tree:
  assumes "finite_heap h"
  shows "\<exists>h1. add_dependency h self other = Some h1 \<and>
           (other \<in> set (dependencies (h1 self)) \<longleftrightarrow>
            tree_from (with_dependency h self other) self)"
proof -
  from finite_heap_with_dependency [OF assms]
  have "finite (reachable (with_dependency h self other) self)"
    by (rule finite_heap_reachable)
  from validate_dependencies_tree [OF this] add_dependency_kept_iff [OF assms, of self other]
  show ?thesis by auto
qed

lemma finite_heap_add_dependency:
  assumes "finite_heap h" and "add_dependency h self other = Some h1"
  shows "finite_heap h1"
proof -
  have "{a. dependencies (h1 a) \<noteq> []} \<subseteq> insert self {a. dependencies (h a) \<noteq> []}"
    using assms(2)
    by (auto simp: add_dependency_def with_dependency_def without_dependency_def Let_def
        split: option.splits if_splits)
  with assms(1) show ?thesis
    unfolding finite_heap_def by (meson finite_insert finite_subset)
qed

text \<open>
  C3. \<open>self.add_dependency(other)\<close> leaves \<open>other\<close> in the dependency set of \<open>self\<close>
  exactly when the traversal from \<open>self\<close>, run on the store with the edge added, pops no
  task twice. So after \<open>self.add_dependency(other)\<close> has kept its edge,
  \<open>other.add_dependency(self)\<close> leaves \<open>self\<close> out of the dependency set of \<open>other\<close>;
  and when the store with the edge added has a task \<open>u\<close> reachable from \<open>self\<close> with two
  different dependencies \<open>c\<close> and \<open>d\<close> that both lead to one task \<open>z\<close>, the edge is not
  kept either.
\<close>

theorem add_dependency_spec:
  assumes "finite_heap h"
  shows "(\<exists>h1. add_dependency h self other = Some h1 \<and>
            (other \<in> set (dependencies (h1 self)) \<longleftrightarrow>
             validate_dependencies (with_dependency h self other) self = Some True)) \<and>
         (\<forall>h1. add_dependency h self other = Some h1 \<and> other \<in> set (dependencies (h1 self)) \<longrightarrow>
            (\<exists>h2. add_dependency h1 other self = Some h2 \<and>
                  self \<notin> set (dependencies (h2 other)))) \<and>
         (\<forall>h1 u c d z.
            add_dependency h self other = Some h1 \<and>
            u \<in> reachable (with_dependency h self other) self \<and>
            c \<in> set (dependencies (with_dependency h self other u)) \<and>
            d \<in> set (dependencies (with_dependency h self other u)) \<and> c \<noteq> d \<and>
            z \<in> reachable (with_dependency h self other) c \<and>
            z \<in> reachable (with_dependency h self other) d \<longrightarrow>
            other \<notin> set (dependencies (h1 self)))"
proof (intro conjI allI impI)
  from add_dependency_kept_iff [OF assms, of self other]
  show "\<exists>h1. add_dependency h self other = Some h1 \<and>
            (other \<in> set (dependencies (h1 self)) \<longleftrightarrow>
             validate_dependencies (with_dependency h self other) self = Some True)"
    by blast
next
  fix h1
  assume a: "add_dependency h self other = Some h1 \<and> other \<in> set (dependencies (h1 self))"
  with assms have fin: "finite_heap h1" by (blast intro: finite_heap_add_dependency)
  let ?g = "with_dependency h1 other self"
  from add_dependency_kept_iff [OF fin, of other self]
  obtain h2 where h2: "add_dependency h1 other self = Some h2"
    and iff: "self \<in> set (dependencies (h2 other)) \<longleftrightarrow>
              validate_dependencies ?g other = Some True"
    by blast
  have "validate_dependencies ?g other \<noteq> Some True"
  proof
    assume v: "validate_dependencies ?g other = Some True"
    have "self \<in> set (dependencies (?g other))"
      by (simp add: dependencies_with_dependency)
    moreover from a have "other \<in> set (dependencies (?g self))"
      by (simp add: dependencies_with_dependency)
    then have "(self, other) \<in> (dep_rel ?g)\<^sup>*"
      by (auto simp: dep_rel_def)
    ultimately show False
      using validate_dependencies_True_no_cycle [OF v] by blast
  qed
  with h2 iff show "\<exists>h2. add_dependency h1 other self = Some h2 \<and>
                  self \<notin> set (dependencies (h2 other))"
    by blast
next
  fix h1 u c d z
  let ?g = "with_dependency h self other"
  assume a: "add_dependency h self other = Some h1 \<and>
            u \<in> reachable ?g self \<and>
            c \<in> set (dependencies (?g u)) \<and>
            d \<in> set (dependencies (?g u)) \<and> c \<noteq> d \<and>
            z \<in> reachable ?g c \<and> z \<in> reachable ?g d"
  from add_dependency_kept_iff [OF assms, of self other] a
  have iff: "other \<in> set (dependencies (h1 self)) \<longleftrightarrow>
             validate_dependencies ?g self = Some True"
    by auto
  from a have "validate_dependencies ?g self \<noteq> Some True"
    using validate_dependencies_True_no_diamond [of ?g self u c d z] by blast
  with iff show "other \<notin> set (dependencies (h1 self))" by simp
qed


lemma reachable_dependency:
  "d \<in> set (dependencies (h x)) \<Longrightarrow> d \<in> reachable h x"
  by (auto simp: reachable_def dep_rel_def)

lemma finite_heap_fresh: "finite_heap fresh_heap"
  by (simp add: finite_heap_def fresh_heap_def example_task_def)

lemmas heap_eval =
  validate_dependencies_def validate_loop.simps with_dependency_def without_dependency_def
  set_add_def set_remove_def fresh_heap_def example_task_def

lemma finite_heap_diamond: "finite_heap diamond_heap"
  unfolding diamond_heap_def
  by (intro finite_heap_with_dependency finite_heap_fresh)

theorem add_dependency_witness:
  "finite_heap fresh_heap \<and>
   add_dependency fresh_heap 0 1 = Some (with_dependency fresh_heap 0 1) \<and>
   1 \<in> set (dependencies (with_dependency fresh_heap 0 1 0)) \<and>
   (\<exists>h2. add_dependency (with_dependency fresh_heap 0 1) 1 0 = Some h2 \<and>
         0 \<notin> set (dependencies (h2 1))) \<and>
   finite_heap diamond_heap \<and>
   (\<exists>h1. add_dependency diamond_heap 0 2 = Some h1 \<and> 2 \<notin> set (dependencies (h1 0)))"
proof -
  have kept: "add_dependency fresh_heap 0 1 = Some (with_dependency fresh_heap 0 1)"
    by (simp add: add_dependency_def heap_eval)
  have dep: "1 \<in> set (dependencies (with_dependency fresh_heap 0 1 0))"
    by (simp add: heap_eval)
  let ?g = "with_dependency diamond_heap 0 2"
  have u: "0 \<in> reachable ?g 0" by (rule reachable_self)
  have c: "1 \<in> set (dependencies (?g 0))" and d: "2 \<in> set (dependencies (?g 0))"
    by (simp_all add: diamond_heap_def heap_eval)
  have "3 \<in> set (dependencies (?g 1))" "3 \<in> set (dependencies (?g 2))"
    by (simp_all add: diamond_heap_def heap_eval)
  then have z: "3 \<in> reachable ?g 1" "3 \<in> reachable ?g 2"
    by (simp_all add: reachable_dependency)
  from add_dependency_spec [OF finite_heap_fresh, of 0 1] kept dep
  have "\<exists>h2. add_dependency (with_dependency fresh_heap 0 1) 1 0 = Some h2 \<and>
         0 \<notin> set (dependencies (h2 1))"
    by blast
  moreover have ne: "(1::nat) \<noteq> 2" by simp
  from add_dependency_spec [OF finite_heap_diamond, of 0 2] u c d z ne
  have "\<exists>h1. add_dependency diamond_heap 0 2 = Some h1 \<and> 2 \<notin> set (dependencies (h1 0))"
    by blast
  ultimately show ?thesis
    using kept dep finite_heap_fresh finite_heap_diamond by blast
qed

text \<open>
  C9. On a store in which finitely many tasks are reachable from the start task,
  \<open>validate_dependencies\<close> returns, also when the graph has a cycle: every iteration either
  returns false or adds an unseen task, reachable from the start, to the seen set, so one
  more iteration than there are reachable tasks is enough.
\<close>

theorem validate_dependencies_terminates:
  assumes "finite (reachable h task)"
  shows "\<exists>b. validate_dependencies h task = Some b \<and>
             validate_fuel (Suc (card (reachable h task))) h {} [task] = Some b"
  using validate_dependencies_returns [OF assms] by blast

lemma finite_heap_cycle: "finite_heap cycle_heap"
  unfolding cycle_heap_def
  by (intro finite_heap_with_dependency finite_heap_fresh)

theorem validate_dependencies_terminates_witness:
  "finite (reachable cycle_heap 0) \<and>
   0 \<in> set (dependencies (cycle_heap 1)) \<and> 1 \<in> set (dependencies (cycle_heap 0)) \<and>
   validate_dependencies cycle_heap 0 = Some False \<and>
   validate_fuel (Suc (card (reachable cycle_heap 0))) cycle_heap {} [0] = Some False"
proof -
  have fin: "finite (reachable cycle_heap 0)"
    using finite_heap_cycle by (rule finite_heap_reachable)
  have v: "validate_dependencies cycle_heap 0 = Some False"
    by (simp add: cycle_heap_def heap_eval)
  have "0 \<in> set (dependencies (cycle_heap 1))" "1 \<in> set (dependencies (cycle_heap 0))"
    by (simp_all add: cycle_heap_def heap_eval)
  with validate_dependencies_terminates [OF fin] fin v show ?thesis
    by (auto simp del: validate_fuel.simps)
qed

lemma add_dependency_rollback:
  assumes "other \<notin> set (dependencies (h self))"
    and "add_dependency h self other = Some h1"
    and "validate_dependencies (with_dependency h self other) self = Some False"
  shows "h1 = h"
proof -
  from assms(1) have "removeAll other (dependencies (h self) @ [other]) = dependencies (h self)"
    by simp
  with assms show ?thesis
    by (auto simp: add_dependency_def with_dependency_def without_dependency_def set_add_def
        set_remove_def)
qed

text \<open>
  C2 fails on the code. After \<open>t0.add_dependency(t1)\<close>, \<open>t0.add_dependency(t2)\<close> and
  \<open>t1.add_dependency(t2)\<close>, each of which keeps its edge, task 0 depends on tasks 1 and 2.
  A second \<open>t0.add_dependency(t1)\<close> is rejected by the validation, and the roll-back
  removes task 1 from the dependencies of task 0, where it was before the call.
\<close>

theorem add_dependency_drops_existing_edge:
  "run_ops fresh_heap [(0, AddDependency 1), (0, AddDependency 2), (1, AddDependency 2)]
     = Some triangle_heap \<and>
   set (dependencies (triangle_heap 0)) = {1, 2} \<and>
   validate_dependencies (with_dependency triangle_heap 0 1) 0 = Some False \<and>
   add_dependency triangle_heap 0 1 = Some (without_dependency triangle_heap 0 1) \<and>
   set (dependencies (without_dependency triangle_heap 0 1 0)) = {2}"
proof (intro conjI)
  show "run_ops fresh_heap [(0, AddDependency 1), (0, AddDependency 2), (1, AddDependency 2)]
     = Some triangle_heap"
    by (simp add: triangle_heap_def add_dependency_def heap_eval)
  show "set (dependencies (triangle_heap 0)) = {1, 2}"
    by (simp add: triangle_heap_def heap_eval)
  show "validate_dependencies (with_dependency triangle_heap 0 1) 0 = Some False"
    by (simp add: triangle_heap_def heap_eval)
  show "add_dependency triangle_heap 0 1 = Some (without_dependency triangle_heap 0 1)"
    by (simp add: triangle_heap_def add_dependency_def heap_eval)
  show "set (dependencies (without_dependency triangle_heap 0 1 0)) = {2}"
    by (simp add: triangle_heap_def heap_eval)
qed

section \<open>Status transitions\<close>

text \<open>
  C4. \<open>start_task\<close> returns true exactly when \<open>can_start\<close> holds, that is when an
  assignee is set and the dependency set is empty or every dependency is DONE; it then
  sets the status to IN_PROGRESS. Otherwise it returns false and changes nothing. A task
  without an assignee is never started.
\<close>

theorem start_task_spec:
  "(can_start h self \<longleftrightarrow>
      assignee (h self) \<noteq> None \<and>
      (set (dependencies (h self)) = {} \<or>
       (\<forall>dep\<in>set (dependencies (h self)). status (h dep) = DONE))) \<and>
   (fst (start_task h self) \<longleftrightarrow> can_start h self) \<and>
   (can_start h self \<longrightarrow>
      snd (start_task h self) = h(self := (h self)\<lparr>status := IN_PROGRESS\<rparr>) \<and>
      status (snd (start_task h self) self) = IN_PROGRESS) \<and>
   (\<not> can_start h self \<longrightarrow> snd (start_task h self) = h) \<and>
   (assignee (h self) = None \<longrightarrow> start_task h self = (False, h))"
  by (auto simp: can_start_def start_task_def list_all_iff)

theorem start_task_witness:
  "can_start (assign fresh_heap 0 example_agent) 0 \<and>
   fst (start_task (assign fresh_heap 0 example_agent) 0) \<and>
   status (snd (start_task (assign fresh_heap 0 example_agent) 0) 0) = IN_PROGRESS \<and>
   assignee (fresh_heap 0) = None \<and> \<not> can_start fresh_heap 0 \<and>
   start_task fresh_heap 0 = (False, fresh_heap)"
  using start_task_spec [of "assign fresh_heap 0 example_agent" 0]
    start_task_spec [of fresh_heap 0]
  by (simp add: assign_def Task_assign_def fresh_heap_def example_task_def)

lemma add_dependency_status:
  "add_dependency h self task = Some h1 \<Longrightarrow> status (h1 u) = status (h u)"
  by (auto simp: add_dependency_def with_dependency_def without_dependency_def Let_def
      split: option.splits if_splits)

lemma apply_op_status:
  assumes "apply_op h (t, c) = Some h1"
  shows "status (h1 u) = status (h u) \<or>
         (u = t \<and> c = StartTask \<and> can_start h t \<and> status (h1 u) = IN_PROGRESS) \<or>
         (u = t \<and> c = CompleteTask \<and> status (h u) = IN_PROGRESS \<and> status (h1 u) = DONE)"
proof (cases c)
  case (AddDependency d)
  with assms show ?thesis by (simp add: add_dependency_status)
next
  case StartTask
  with assms show ?thesis by (auto simp: start_task_def split: if_splits)
next
  case CompleteTask
  with assms show ?thesis by (auto simp: complete_task_def can_complete_def split: if_splits)
next
  case (SetProject p)
  with assms show ?thesis by (auto simp: set_project_def)
next
  case (Assign a)
  with assms show ?thesis by (auto simp: assign_def Task_assign_def)
qed

lemma run_ops_not_TODO:
  "run_ops h cs = Some h2 \<Longrightarrow> status (h u) \<noteq> TODO \<Longrightarrow> status (h2 u) \<noteq> TODO"
proof (induction cs arbitrary: h)
  case Nil
  then show ?case by simp
next
  case (Cons c cs)
  obtain t k where c: "c = (t, k)" by (cases c)
  from Cons.prems(1) obtain h1 where h1: "apply_op h c = Some h1" and rest: "run_ops h1 cs = Some h2"
    by (auto split: option.splits)
  from apply_op_status [OF h1 [unfolded c], of u] Cons.prems(2)
  have "status (h1 u) \<noteq> TODO" by auto
  from Cons.IH [OF rest this] show ?case .
qed

text \<open>
  C1, as the code has it. A call changes the status of no task but its receiver; the only
  changes are to IN_PROGRESS by \<open>start_task\<close> when \<open>can_start\<close> holds, from whatever
  status the task has, and from IN_PROGRESS to DONE by \<open>complete_task\<close>. No sequence of
  calls moves a task that has left TODO back to TODO.
\<close>

theorem status_transitions:
  "(apply_op h (t, c) = Some h1 \<longrightarrow>
      status (h1 u) = status (h u) \<or>
      (u = t \<and> c = StartTask \<and> can_start h t \<and> status (h1 u) = IN_PROGRESS) \<or>
      (u = t \<and> c = CompleteTask \<and> status (h u) = IN_PROGRESS \<and> status (h1 u) = DONE)) \<and>
   (run_ops h cs = Some h2 \<and> status (h u) \<noteq> TODO \<longrightarrow> status (h2 u) \<noteq> TODO)"
  using apply_op_status [of h t c h1 u] run_ops_not_TODO [of h cs h2 u] by blast

lemma done_heap_0: "done_heap 0 = example_task\<lparr>status := DONE, assignee := Some example_agent\<rparr>"
  by (simp add: done_heap_def complete_task_def can_complete_def start_task_def can_start_def
      assign_def Task_assign_def fresh_heap_def example_task_def)

lemma run_ops_done_heap:
  "run_ops fresh_heap [(0, Assign example_agent), (0, StartTask), (0, CompleteTask)] = Some done_heap"
  by (simp add: done_heap_def)

theorem status_transitions_witness:
  "apply_op done_heap (0, StartTask) = Some (snd (start_task done_heap 0)) \<and>
   can_start done_heap 0 \<and>
   status (snd (start_task done_heap 0) 0) = IN_PROGRESS \<and>
   run_ops done_heap [(0, StartTask)] = Some (snd (start_task done_heap 0)) \<and>
   status (done_heap 0) \<noteq> TODO \<and> status (snd (start_task done_heap 0) 0) \<noteq> TODO"
  using status_transitions [of done_heap 0 StartTask "snd (start_task done_heap 0)" 0
      "[(0, StartTask)]" "snd (start_task done_heap 0)"]
  by (simp add: done_heap_0 start_task_def can_start_def example_task_def)

text \<open>
  C1 fails as stated: task 0 is assigned, started and completed, so that its status is
  DONE; a further \<open>start_task\<close> returns true and moves it back to IN_PROGRESS.
\<close>

theorem done_task_restarts:
  "run_ops fresh_heap [(0, Assign example_agent), (0, StartTask), (0, CompleteTask)] = Some done_heap \<and>
   status (done_heap 0) = DONE \<and>
   fst (start_task done_heap 0) \<and>
   status (snd (start_task done_heap 0) 0) = IN_PROGRESS"
proof (intro conjI)
  show "run_ops fresh_heap [(0, Assign example_agent), (0, StartTask), (0, CompleteTask)] = Some done_heap"
    by (rule run_ops_done_heap)
  show "status (done_heap 0) = DONE"
    by (simp add: done_heap_0)
  show "fst (start_task done_heap 0)"
    by (simp add: done_heap_0 start_task_def can_start_def example_task_def)
  show "status (snd (start_task done_heap 0) 0) = IN_PROGRESS"
    by (simp add: done_heap_0 start_task_def can_start_def example_task_def)
qed

section \<open>Use cases\<close>

lemma tag_names_range: "tag_names = range Tag_name"
proof -
  have "(UNIV :: Tag set) = {HIGH_PRIORITY, MEDIUM_PRIORITY, LOW_PRIORITY}"
    using Tag.exhaust by auto
  then have "range Tag_name = Tag_name ` {HIGH_PRIORITY, MEDIUM_PRIORITY, LOW_PRIORITY}"
    by (rule arg_cong)
  then show ?thesis by (simp add: tag_names_def)
qed

lemma Tag_getitem_known:
  "n \<in> tag_names \<Longrightarrow> \<exists>t. Tag_getitem (PStr n) = Inr t"
  by (auto simp: tag_names_def Tag_getitem_def enum_getitem_def)

lemma Tag_getitem_unknown:
  "n \<notin> tag_names \<Longrightarrow> Tag_getitem (PStr n) = Inl (KeyError (py_repr (PStr n)))"
  by (auto simp: tag_names_def Tag_getitem_def enum_getitem_def)

lemma map_exn_tags_known:
  "set tgs \<subseteq> tag_names \<Longrightarrow> \<exists>ts. map_exn Tag_getitem (map PStr tgs) = Inr ts"
proof (induction tgs)
  case Nil
  then show ?case by simp
next
  case (Cons n tgs)
  then obtain t ts where "Tag_getitem (PStr n) = Inr t"
    "map_exn Tag_getitem (map PStr tgs) = Inr ts"
    using Tag_getitem_known [of n] by auto
  then show ?case by simp
qed

lemma map_exn_tags_unknown:
  "\<not> set tgs \<subseteq> tag_names \<Longrightarrow> \<exists>m. map_exn Tag_getitem (map PStr tgs) = Inl (KeyError m)"
proof (induction tgs)
  case Nil
  then show ?case by simp
next
  case (Cons n tgs)
  show ?case
  proof (cases "n \<in> tag_names")
    case True
    with Cons.prems have "\<not> set tgs \<subseteq> tag_names" by simp
    from Cons.IH [OF this] obtain m where "map_exn Tag_getitem (map PStr tgs) = Inl (KeyError m)"
      by blast
    moreover from True obtain t where "Tag_getitem (PStr n) = Inr t"
      using Tag_getitem_known by blast
    ultimately show ?thesis by simp
  next
    case False
    then show ?thesis by (simp add: Tag_getitem_unknown)
  qed
qed

text \<open>
  C6. For a cost below 1 and tag names that are all names of tags, \<open>create_task\<close> returns
  the failure \<open>Enterprise rule violation: Cost must be at least 1\<close>, without a call of the
  repository; the message contains \<open>Enterprise rule violation\<close> and no record is returned
  as a success.
\<close>

theorem create_task_invalid_cost:
  assumes "cst < 1" and "set tgs \<subseteq> tag_names"
  shows "create_task repository s ttl descr cst tgs =
           (Inr (Failure ''Enterprise rule violation: Cost must be at least 1''), s) \<and>
         (\<exists>m. fst (create_task repository s ttl descr cst tgs) = Inr (Failure m) \<and>
              sublist ''Enterprise rule violation'' m) \<and>
         (\<forall>v. fst (create_task repository s ttl descr cst tgs) \<noteq> Inr (Success v))"
proof -
  from map_exn_tags_known [OF assms(2)] obtain ts
    where "map_exn Tag_getitem (map PStr tgs) = Inr ts" by blast
  with assms(1) have r: "create_task repository s ttl descr cst tgs =
           (Inr (Failure ''Enterprise rule violation: Cost must be at least 1''), s)"
    by (simp add: create_task_def bind_exn_def Task_init_def Failure_of_def)
  have "sublist ''Enterprise rule violation''
          (''Enterprise rule violation'' @ '': Cost must be at least 1'')"
    by (rule sublist_append_rightI)
  then have "sublist ''Enterprise rule violation''
          ''Enterprise rule violation: Cost must be at least 1''" by simp
  with r show ?thesis by simp
qed

theorem create_task_invalid_cost_witness:
  "(0::int) < 1 \<and> set [''LOW_PRIORITY''] \<subseteq> tag_names \<and>
   create_task MemoryTaskRepository [] ''Invalid Task'' ''This task has invalid cost'' 0
     [''LOW_PRIORITY''] =
     (Inr (Failure ''Enterprise rule violation: Cost must be at least 1''), [])"
proof -
  have t: "set [''LOW_PRIORITY''] \<subseteq> tag_names" by (simp add: tag_names_def)
  have c: "(0::int) < 1" by simp
  from create_task_invalid_cost [OF c t, of MemoryTaskRepository "[]" "''Invalid Task''"
      "''This task has invalid cost''"] t
  show ?thesis by simp
qed

text \<open>
  C10. When some tag name is not the name of a tag, \<open>create_task\<close> returns a failure whose
  message starts with \<open>Unexpected enterprise error: \<close> and not with
  \<open>Enterprise rule violation: \<close>, whatever the cost is, and does not call the repository:
  the names are looked up before the task is built.
\<close>

theorem create_task_unknown_tag:
  assumes "\<not> set tgs \<subseteq> tag_names"
  shows "\<exists>m. create_task repository s ttl descr cst tgs =
               (Inr (Failure (''Unexpected enterprise error: '' @ m)), s) \<and>
             \<not> prefix ''Enterprise rule violation: '' (''Unexpected enterprise error: '' @ m)"
proof -
  from map_exn_tags_unknown [OF assms] obtain m
    where "map_exn Tag_getitem (map PStr tgs) = Inl (KeyError m)" by blast
  then have "create_task repository s ttl descr cst tgs =
               (Inr (Failure (''Unexpected enterprise error: '' @ m)), s)"
    by (simp add: create_task_def bind_exn_def except_Exception_def Failure_of_def)
  then show ?thesis by auto
qed

theorem create_task_unknown_tag_witness:
  "\<not> set [''LOW_PRIORITY'', ''URGENT''] \<subseteq> tag_names \<and>
   (\<exists>m. create_task MemoryTaskRepository [] ''Task'' [] 0 [''LOW_PRIORITY'', ''URGENT''] =
          (Inr (Failure (''Unexpected enterprise error: '' @ m)), []))"
proof -
  have t: "\<not> set [''LOW_PRIORITY'', ''URGENT''] \<subseteq> tag_names" by (simp add: tag_names_def)
  from create_task_unknown_tag [OF t, of MemoryTaskRepository "[]" "''Task''" "[]" 0] t
  show ?thesis by blast
qed

lemma except_Exception_catchable:
  "catchable e \<Longrightarrow> \<exists>m. except_Exception pre e = Inr (Failure (pre @ m))"
  by (auto simp: catchable_def except_Exception_def Failure_of_def split: sum.splits)

lemma except_Exception_passes:
  "\<not> is_Exception e \<Longrightarrow> except_Exception pre e = Inl e"
  by (simp add: except_Exception_def)

lemma except_Exception_str_raises:
  "is_Exception e \<Longrightarrow> exn_str e = Inl e1 \<Longrightarrow> except_Exception pre e = Inl e1"
  by (simp add: except_Exception_def Failure_of_def)

lemma map_exn_tags_catchable:
  "map_exn Tag_getitem vs = Inl e \<Longrightarrow> catchable e"
proof (induction vs)
  case Nil
  then show ?case by simp
next
  case (Cons v vs)
  then show ?case
    by (auto simp: Tag_getitem_def enum_getitem_def catchable_def
        split: sum.splits pyval.splits option.splits)
qed

lemma Task_init_catchable:
  "Task_init tid ttl descr cst st tgs = Inl e \<Longrightarrow> catchable e"
  by (auto simp: Task_init_def catchable_def split: pyval.splits if_splits)

lemma assign_task_record_catchable:
  assumes "assign_task_record tid aid task agent = Inl e"
  shows "catchable e"
proof -
  have getitem: "catchable e" if "py_getitem obj key = Inl e" for obj key
    using that by (auto simp: py_getitem_def catchable_def split: pyval.splits option.splits)
  have get: "catchable e" if "py_get obj key dflt = Inl e" for obj key dflt
    using that by (auto simp: py_get_def catchable_def split: pyval.splits)
  have iter: "catchable e" if "py_iter obj = Inl e" for obj
    using that by (auto simp: py_iter_def catchable_def split: pyval.splits)
  have st: "catchable e" if "Status_getitem v = Inl e" for v
    using that
    by (auto simp: Status_getitem_def enum_getitem_def catchable_def
        split: pyval.splits option.splits)
  from assms show ?thesis
    unfolding assign_task_record_def bind_exn_def Let_def
    by (auto split: sum.splits
        dest: getitem get iter st map_exn_tags_catchable Task_init_catchable)
qed

text \<open>
  C5, as the code has it. When every call of the repositories returns, a record well
  formed or not, or raises an instance of \<open>Exception\<close> whose text \<open>str(e)\<close> can be taken,
  every use case returns a \<open>Result\<close>, a success or a failure, and no exception leaves it.
\<close>

theorem use_cases_return_result:
  assumes add: "\<forall>s x e. fst (repo_add repository s x) = Inl e \<longrightarrow> catchable e"
    and get: "\<forall>s k e. fst (repo_get repository s k) = Inl e \<longrightarrow> catchable e"
    and aget: "\<forall>a k e. fst (repo_get agent_repo a k) = Inl e \<longrightarrow> catchable e"
  shows "(\<exists>r s1. create_task repository s ttl descr cst tgs = (Inr r, s1)) \<and>
         (\<exists>r s1. create_agent repository s nm = (Inr r, s1)) \<and>
         (\<exists>r s1. get_task repository s tid = (Inr r, s1)) \<and>
         (\<exists>r s1. get_agent repository s aid = (Inr r, s1)) \<and>
         (\<exists>r s1 a1. assign_task repository agent_repo s a tid aid = (Inr r, s1, a1))"
proof (intro conjI)
  have handled: "\<exists>r. except_Exception pre e = Inr r" if "catchable e" for pre e
    using except_Exception_catchable [OF that] by blast
  have add': "\<exists>r. except_Exception pre e = Inr r"
    if "repo_add repository s0 x = (Inl e, s1)" for pre e s0 s1 x
    using add [rule_format, of s0 x e] that by (simp add: handled)
  have get': "\<exists>r. except_Exception pre e = Inr r"
    if "repo_get repository s0 k = (Inl e, s1)" for pre e s0 s1 k
    using get [rule_format, of s0 k e] that by (simp add: handled)
  have aget': "\<exists>r. except_Exception pre e = Inr r"
    if "repo_get agent_repo a0 k = (Inl e, a1)" for pre e a0 a1 k
    using aget [rule_format, of a0 k e] that by (simp add: handled)
  show "\<exists>r s1. create_task repository s ttl descr cst tgs = (Inr r, s1)"
  proof (cases "bind_exn (map_exn Tag_getitem (map PStr tgs))
             (\<lambda>ts. Task_init None (PStr ttl) (PStr descr) (PInt cst) TODO ts)")
    case (Inl e)
    then have "catchable e"
      by (auto simp: bind_exn_def split: sum.splits
          dest: map_exn_tags_catchable Task_init_catchable)
    then obtain m where m: "exn_str e = Inr m" and ex: "is_Exception e"
      by (auto simp: catchable_def split: sum.splits)
    with Inl show ?thesis
      by (simp add: create_task_def Failure_of_def except_Exception_def)
  next
    case (Inr task)
    then show ?thesis
      using add' by (auto simp: create_task_def Let_def split: sum.splits prod.splits)
  qed
  show "\<exists>r s1. create_agent repository s nm = (Inr r, s1)"
    using add' by (auto simp: create_agent_def Let_def split: sum.splits prod.splits)
  show "\<exists>r s1. get_task repository s tid = (Inr r, s1)"
    using get' by (auto simp: get_task_def split: sum.splits prod.splits)
  show "\<exists>r s1. get_agent repository s aid = (Inr r, s1)"
    using get' by (auto simp: get_agent_def split: sum.splits prod.splits)
  show "\<exists>r s1 a1. assign_task repository agent_repo s a tid aid = (Inr r, s1, a1)"
    using add' get' aget' handled [OF assign_task_record_catchable]
    by (auto simp: assign_task_def split: sum.splits prod.splits)
qed

lemmas use_case_eval =
  create_task_def create_agent_def get_task_def get_agent_def assign_task_def
  assign_task_record_def bind_exn_def Task_init_def Agent_init_def Task_assign_def
  Tag_getitem_def Status_getitem_def enum_getitem_def py_getitem_def py_get_def py_iter_def
  MemoryTaskRepository_def MemoryAgentRepository_def memory_add_def memory_get_def
  raising_repository_def malformed_repository_def connection_lost_def keyboard_interrupt_def
  unprintable_def except_Exception_def Failure_of_def squote_def Let_def

theorem use_cases_return_result_witness:
  "catchable connection_lost \<and>
   create_task (raising_repository connection_lost) () ''Task'' [] 1 [''LOW_PRIORITY''] =
     (Inr (Failure ''Unexpected adapter error: connection lost''), ()) \<and>
   get_task (raising_repository connection_lost) () ''1'' =
     (Inr (Failure ''Unexpected adapter error: connection lost''), ()) \<and>
   (\<exists>r s1 a1. assign_task malformed_repository malformed_repository () () ''1'' ''1'' =
      (Inr r, s1, a1))"
proof -
  have c: "catchable connection_lost"
    by (simp add: catchable_def connection_lost_def)
  have r: "\<forall>s x e. fst (repo_add (raising_repository connection_lost) s x) = Inl e
      \<longrightarrow> catchable e"
    using c by (simp add: raising_repository_def)
  have g: "\<forall>s k e. fst (repo_get (raising_repository connection_lost) s k) = Inl e
      \<longrightarrow> catchable e"
    using c by (simp add: raising_repository_def)
  have m: "\<forall>s x e. fst (repo_add malformed_repository s x) = Inl e \<longrightarrow> catchable e"
    by (simp add: malformed_repository_def)
  have mg: "\<forall>s k e. fst (repo_get malformed_repository s k) = Inl e \<longrightarrow> catchable e"
    by (simp add: malformed_repository_def)
  from use_cases_return_result [OF m mg mg]
  have "\<exists>r s1 a1. assign_task malformed_repository malformed_repository () () ''1'' ''1'' =
      (Inr r, s1, a1)"
    by blast
  moreover
  from use_cases_return_result [OF r g g]
  have "\<exists>r s1. create_task (raising_repository connection_lost) () ''Task'' [] 1
      [''LOW_PRIORITY''] = (Inr r, s1)"
    by blast
  moreover
  have "create_task (raising_repository connection_lost) () ''Task'' [] 1 [''LOW_PRIORITY''] =
     (Inr (Failure ''Unexpected adapter error: connection lost''), ())"
    by (simp add: use_case_eval)
  moreover
  have "get_task (raising_repository connection_lost) () ''1'' =
     (Inr (Failure ''Unexpected adapter error: connection lost''), ())"
    by (simp add: use_case_eval)
  ultimately show ?thesis using c by blast
qed

text \<open>
  C5 fails as stated: when the call of the repository raises \<open>KeyboardInterrupt\<close>, which
  is no instance of \<open>Exception\<close>, no handler takes it and it leaves the use case.
\<close>

theorem use_case_propagates_interrupt:
  "create_task (raising_repository keyboard_interrupt) () ''Task'' [] 1 [''LOW_PRIORITY''] =
     (Inl keyboard_interrupt, ()) \<and>
   get_task (raising_repository keyboard_interrupt) () ''1'' = (Inl keyboard_interrupt, ()) \<and>
   assign_task (raising_repository keyboard_interrupt) MemoryAgentRepository () [] ''1'' ''1'' =
     (Inl keyboard_interrupt, (), [])"
  by (simp add: use_case_eval)

subsection \<open>Runs of the use cases on the repositories above\<close>

lemma create_task_example:
  "create_task MemoryTaskRepository [] ''Test Task'' ''A test task'' 5 [''MEDIUM_PRIORITY''] =
     (Inr (Success (PDict
        [(''title'', PStr ''Test Task''), (''description'', PStr ''A test task''),
         (''cost'', PInt 5), (''tags'', PList [PStr ''MEDIUM_PRIORITY'']),
         (''status'', PStr ''TODO''), (''task_id'', PStr ''1'')])),
      [(''1'', [(''title'', PStr ''Test Task''), (''description'', PStr ''A test task''),
         (''cost'', PInt 5), (''tags'', PList [PStr ''MEDIUM_PRIORITY'']),
         (''status'', PStr ''TODO''), (''task_id'', PStr ''1'')])])"
  by (simp add: use_case_eval)

lemma get_task_missing_example:
  "get_task MemoryTaskRepository [] ''999'' = (Inr (Failure ''Task not found''), [])"
  by (simp add: use_case_eval)

text \<open>
  The text of the exception is taken inside the handler: when \<open>str(e)\<close> raises, that
  exception leaves the use case.
\<close>

lemma get_task_unprintable_example:
  "get_task (raising_repository unprintable) () ''1'' =
     (Inl (TypeError ''__str__ returned non-string (type NoneType)''), ())"
  by (simp add: use_case_eval)

lemma create_task_unknown_tag_example:
  "create_task MemoryTaskRepository [] ''Task'' [] 1 [''it'' @ squote @ ''s''] =
     (Inr (Failure (''Unexpected enterprise error: '' @ [CHR 0x22] @ ''it'' @ squote @ ''s''
        @ [CHR 0x22])), [])"
  by (simp add: use_case_eval repr_str_def repr_quote_def repr_char_def)

lemma assign_task_malformed_example:
  "assign_task malformed_repository malformed_repository () () ''1'' ''1'' =
     (Inr (Failure (''Unexpected adapter error: '' @ squote @ ''<'' @ squote @
        '' not supported between instances of '' @ squote @ ''str'' @ squote @ '' and '' @
        squote @ ''int'' @ squote)), (), ())"
  by (simp add: use_case_eval)

lemma assign_task_example:
  "assign_task MemoryTaskRepository MemoryAgentRepository
     [(''1'', [(''title'', PStr ''Assignable Task''), (''description'', PStr ''A task to be assigned''),
         (''cost'', PInt 3), (''tags'', PList [PStr ''LOW_PRIORITY'']),
         (''status'', PStr ''TODO''), (''task_id'', PStr ''1'')])]
     [(''1'', [(''name'', PStr ''agent_123''), (''agent_id'', PStr ''1'')])] ''1'' ''1'' =
   (Inr (Success (PDict
      [(''task_id'', PStr ''2''), (''title'', PStr ''Assignable Task''),
       (''description'', PStr ''A task to be assigned''), (''cost'', PInt 3),
       (''tags'', PList [PStr ''LOW_PRIORITY'']), (''status'', PStr ''TODO''),
       (''assignee'', PStr ''1'')])),
    [(''1'', [(''title'', PStr ''Assignable Task''), (''description'', PStr ''A task to be assigned''),
         (''cost'', PInt 3), (''tags'', PList [PStr ''LOW_PRIORITY'']),
         (''status'', PStr ''TODO''), (''task_id'', PStr ''1'')]),
     (''2'', [(''task_id'', PStr ''2''), (''title'', PStr ''Assignable Task''),
       (''description'', PStr ''A task to be assigned''), (''cost'', PInt 3),
       (''tags'', PList [PStr ''LOW_PRIORITY'']), (''status'', PStr ''TODO''),
       (''assignee'', PStr ''1'')])],
    [(''1'', [(''name'', PStr ''agent_123''), (''agent_id'', PStr ''1'')])])"
  by (simp add: use_case_eval)

end
